theory Spec2Isabelle
  imports Main "HOL-Library.Word"
begin

unbundle bit_operations_syntax

section \<open>JavaScript strings\<close>

text \<open>
  A JavaScript string is a sequence of UTF-16 code units: \<open>length\<close> counts code units,
  \<open>split('')\<close> yields them one by one and \<open>charCodeAt\<close> reads one.  String constants of
  the source are ASCII and are written through \<open>of_ascii\<close>.
\<close>

type_synonym jschar = "16 word"
type_synonym jsstring = "jschar list"

definition of_ascii :: "string \<Rightarrow> jsstring" where
  "of_ascii s = map (\<lambda>c. of_nat (of_char c)) s"

text \<open>
  The character class \<open>\s\<close> of a JavaScript regular expression, which is also the set
  of code units \<open>String.prototype.trim\<close> strips: white space and line terminators.
\<close>

definition is_space :: "jschar \<Rightarrow> bool" where
  "is_space c \<longleftrightarrow>
     c \<in> set [0x09, 0x0A, 0x0B, 0x0C, 0x0D, 0x20, 0xA0, 0x1680,
                0x2028, 0x2029, 0x202F, 0x205F, 0x3000, 0xFEFF]
     \<or> (0x2000 \<le> c \<and> c \<le> 0x200A)"

definition is_newline :: "jschar \<Rightarrow> bool" where
  "is_newline c \<longleftrightarrow> c = 0x0A"

text \<open>
  \<open>s.replace(/X+/g, r)\<close> for a character class \<open>X\<close> and a one-character replacement:
  every maximal run of characters of the class becomes one \<open>r\<close>.
\<close>

function replace_runs :: "(jschar \<Rightarrow> bool) \<Rightarrow> jschar \<Rightarrow> jsstring \<Rightarrow> jsstring" where
  "replace_runs P r [] = []"
| "replace_runs P r (c # cs) =
     (if P c then r # replace_runs P r (dropWhile P cs) else c # replace_runs P r cs)"
  by pat_completeness auto
termination
  by (relation "measure (\<lambda>(P, r, s). length s)")
     (auto simp: le_imp_less_Suc length_dropWhile_le)

definition trim :: "jsstring \<Rightarrow> jsstring" where
  "trim s = rev (dropWhile is_space (rev (dropWhile is_space s)))"

text \<open>Template-literal rendering of a non-negative integer (\<open>${content.length}\<close>).\<close>

function show_nat :: "nat \<Rightarrow> jsstring" where
  "show_nat n =
     (if n < 10 then [of_nat (48 + n)] else show_nat (n div 10) @ [of_nat (48 + n mod 10)])"
  by pat_completeness auto
termination
  by (relation "measure id") auto

declare show_nat.simps [simp del]

fun is_prefix :: "jsstring \<Rightarrow> jsstring \<Rightarrow> bool" where
  "is_prefix [] ys = True"
| "is_prefix (x # xs) [] = False"
| "is_prefix (x # xs) (y # ys) = (x = y \<and> is_prefix xs ys)"

fun contains :: "jsstring \<Rightarrow> jsstring \<Rightarrow> bool" where
  "contains v [] = (v = [])"
| "contains v (c # cs) = (is_prefix v (c # cs) \<or> contains v cs)"

text \<open>The white-space separated tokens of an attribute value (\<open>cur\<close> is the token being read).\<close>

fun split_ws :: "jsstring \<Rightarrow> jsstring \<Rightarrow> jsstring list" where
  "split_ws cur [] = (if cur = [] then [] else [cur])"
| "split_ws cur (c # cs) =
     (if is_space c then (if cur = [] then split_ws [] cs else cur # split_ws [] cs)
      else split_ws (cur @ [c]) cs)"

section \<open>The parsed document (cheerio)\<close>

text \<open>
  The scraper reads and mutates the page through cheerio.  The document is the forest of
  nodes below the document root; an element has a tag name, attributes and children, in
  document order.  A selector is matched against an element's own tag and attributes:
  a class selector against the white-space separated tokens of \<open>class\<close>, \<open>*=\<close> against
  the substrings of the attribute value.
\<close>

datatype node =
  Text jsstring
| Element (tag: string) (attrs: "(string \<times> jsstring) list") (children: "node list")

type_synonym doc = "node list"

text \<open>
  The selectors the scraper uses: \<open>tag\<close>, \<open>.class\<close>, \<open>#id\<close>, \<open>[attr="v"]\<close>,
  \<open>tag[attr="v"]\<close> and \<open>tag[attr*="v"]\<close>.
\<close>

datatype selector =
  Tag string
| Class string
| Id string
| Attr string string
| TagAttr string string string
| TagAttrSub string string string

fun matches :: "selector \<Rightarrow> node \<Rightarrow> bool" where
  "matches s (Text t) = False"
| "matches (Tag t) (Element tg as cs) = (tg = t)"
| "matches (Class c) (Element tg as cs) =
     (case map_of as ''class'' of None \<Rightarrow> False
      | Some v \<Rightarrow> of_ascii c \<in> set (split_ws [] v))"
| "matches (Id i) (Element tg as cs) = (map_of as ''id'' = Some (of_ascii i))"
| "matches (Attr n v) (Element tg as cs) = (map_of as n = Some (of_ascii v))"
| "matches (TagAttr t n v) (Element tg as cs) = (tg = t \<and> map_of as n = Some (of_ascii v))"
| "matches (TagAttrSub t n v) (Element tg as cs) =
     (tg = t \<and> (case map_of as n of None \<Rightarrow> False | Some x \<Rightarrow> contains (of_ascii v) x))"

text \<open>All element nodes of a subtree, the root first, in document order.\<close>

fun elements :: "node \<Rightarrow> node list" where
  "elements (Text t) = []"
| "elements (Element tg as cs) = Element tg as cs # concat (map elements cs)"

text \<open>\<open>$(selector)\<close>: the matching elements of the document, in document order.\<close>

definition query :: "selector \<Rightarrow> doc \<Rightarrow> node list" where
  "query s d = filter (matches s) (concat (map elements d))"

text \<open>\<open>.text()\<close>: the text nodes below an element, concatenated; for a selection, the
  concatenation over its elements.\<close>

fun text_of :: "node \<Rightarrow> jsstring" where
  "text_of (Text t) = t"
| "text_of (Element tg as cs) = concat (map text_of cs)"

definition selection_text :: "node list \<Rightarrow> jsstring" where
  "selection_text es = concat (map text_of es)"

text \<open>\<open>.first().text()\<close> and \<open>.attr(name)\<close> read the first element of a selection.\<close>

definition first_text :: "node list \<Rightarrow> jsstring" where
  "first_text es = (case es of [] \<Rightarrow> [] | e # _ \<Rightarrow> text_of e)"

definition attr :: "node list \<Rightarrow> string \<Rightarrow> jsstring option" where
  "attr es n = (case es of Element tg as cs # _ \<Rightarrow> map_of as n | _ \<Rightarrow> None)"

text \<open>\<open>$(selector).remove()\<close>: every matching element leaves the document with its subtree.\<close>

fun remove_below :: "selector \<Rightarrow> node \<Rightarrow> node" where
  "remove_below s (Text t) = Text t"
| "remove_below s (Element tg as cs) =
     Element tg as (map (remove_below s) (filter (\<lambda>n. \<not> matches s n) cs))"

definition remove :: "selector \<Rightarrow> doc \<Rightarrow> doc" where
  "remove s d = map (remove_below s) (filter (\<lambda>n. \<not> matches s n) d)"

text \<open>\<open>a || b\<close> on strings: the empty string is falsy.\<close>

definition or_else :: "jsstring \<Rightarrow> jsstring \<Rightarrow> jsstring" where
  "or_else a b = (if a \<noteq> [] then a else b)"

text \<open>\<open>a || b\<close> where \<open>a\<close> may be \<open>undefined\<close>.\<close>

definition opt_or_else :: "jsstring option \<Rightarrow> jsstring \<Rightarrow> jsstring" where
  "opt_or_else a b = (case a of None \<Rightarrow> b | Some v \<Rightarrow> or_else v b)"

section \<open>lib/scraper.ts\<close>

record ScrapingOptions =
  timeout :: "int option"
  retries :: "int option"
  userAgent :: "jsstring option"
  headers :: "(string \<times> string) list option"

record Metadata =
  title :: "jsstring option"
  description :: "jsstring option"
  url :: jsstring

record ScrapingResult =
  success :: bool
  content :: "jsstring option"
  error :: "jsstring option"
  metadata :: "Metadata option"

definition DEFAULT_OPTIONS :: ScrapingOptions where
  "DEFAULT_OPTIONS = \<lparr>
     timeout = Some 10000,
     retries = Some 3,
     userAgent = Some (of_ascii ''Mozilla/5.0 (Windows NT 10.0; Win64; x64) AppleWebKit/537.36 (KHTML, like Gecko) Chrome/91.0.4472.124 Safari/537.36''),
     headers = Some [
       (''Accept'', ''text/html,application/xhtml+xml,application/xml;q=0.9,image/webp,*/*;q=0.8''),
       (''Accept-Language'', ''en-US,en;q=0.5''),
       (''Accept-Encoding'', ''gzip, deflate''),
       (''DNT'', ''1''),
       (''Connection'', ''keep-alive''),
       (''Upgrade-Insecure-Requests'', ''1'')] \<rparr>"

definition ARTICLE_SELECTORS :: "selector list" where
  "ARTICLE_SELECTORS = [
     Class ''blog-post-content'',
     Class ''post-content'',
     Class ''blog-content'',
     Attr ''data-testid'' ''blog-content'',
     Class ''content-wrapper'',
     Tag ''article'',
     Attr ''role'' ''main'',
     Class ''post-content'',
     Class ''entry-content'',
     Class ''article-content'',
     Class ''content'',
     Class ''post-body'',
     Class ''story-body'',
     Class ''article-body'',
     Tag ''main'',
     Class ''main-content'',
     Id ''content'',
     Class ''blog-post'',
     Class ''post'',
     Class ''entry'',
     TagAttrSub ''div'' ''class'' ''content'',
     TagAttrSub ''div'' ''class'' ''post'',
     TagAttrSub ''div'' ''class'' ''article'',
     TagAttrSub ''div'' ''class'' ''blog'',
     TagAttrSub ''section'' ''class'' ''content'',
     TagAttrSub ''section'' ''class'' ''post'']"

definition NOISE_SELECTORS :: "selector list" where
  "NOISE_SELECTORS = [
     Tag ''nav'',
     Tag ''header'',
     Tag ''footer'',
     Class ''advertisement'',
     Class ''ads'',
     Class ''sidebar'',
     Class ''comments'',
     Class ''social-share'',
     Class ''related-posts'',
     Class ''navigation'',
     Class ''menu'',
     Tag ''script'',
     Tag ''style'',
     Tag ''noscript'',
     Class ''cookie-notice'',
     Class ''popup'']"

definition cleanText :: "jsstring \<Rightarrow> jsstring" where
  "cleanText text =
     trim (replace_runs is_newline 0x0A (replace_runs is_space 0x20 text))"

subsection \<open>extractMainContent\<close>

text \<open>The \<open>forEach\<close> over \<open>NOISE_SELECTORS\<close>, mutating the document.\<close>

definition strip_noise :: "doc \<Rightarrow> doc" where
  "strip_noise d = foldl (\<lambda>d' s. remove s d') d NOISE_SELECTORS"

text \<open>The body of \<open>elements.each\<close>: the state is \<open>(bestContent, bestLength)\<close>.\<close>

definition consider_element :: "jsstring \<times> nat \<Rightarrow> node \<Rightarrow> jsstring \<times> nat" where
  "consider_element best element =
     (let cleanedText = cleanText (text_of element)
      in if length cleanedText > snd best then (cleanedText, length cleanedText) else best)"

text \<open>The loop over \<open>ARTICLE_SELECTORS\<close>.\<close>

definition selector_cascade :: "doc \<Rightarrow> jsstring \<times> nat" where
  "selector_cascade d =
     foldl (\<lambda>best s. foldl consider_element best (query s d)) ([], 0) ARTICLE_SELECTORS"

text \<open>The loop over \<open>$('p')\<close>, building \<open>paragraphContent\<close>.\<close>

definition add_paragraph :: "jsstring \<Rightarrow> node \<Rightarrow> jsstring" where
  "add_paragraph paragraphContent p =
     (let t = trim (text_of p)
      in if length t > 20 then paragraphContent @ t @ [0x0A, 0x0A] else paragraphContent)"

definition paragraph_content :: "doc \<Rightarrow> jsstring" where
  "paragraph_content d = foldl add_paragraph [] (query (Tag ''p'') d)"

text \<open>
  \<open>extractMainContent\<close> returns the extracted text; the second component is the document
  as the call leaves it (the noise elements are removed in place).
\<close>

definition extractMainContent :: "doc \<Rightarrow> jsstring \<times> doc" where
  "extractMainContent d0 =
     (let d = strip_noise d0;
          bestContent = fst (selector_cascade d)
      in if length bestContent > 1000 then (bestContent, d)
         else
           let paragraphContent = paragraph_content d;
               best1 = (if length paragraphContent > length bestContent
                        then cleanText paragraphContent else bestContent);
               best2 = (if length best1 < 50
                        then (let cleanedBodyText = cleanText (selection_text (query (Tag ''body'') d))
                              in if length cleanedBodyText > length best1
                                 then cleanedBodyText else best1)
                        else best1)
           in (best2, d))"

subsection \<open>Errors\<close>

text \<open>
  What \<open>getErrorMessage\<close> reads of a caught error: \<open>error.code\<close>,
  \<open>error.response?.status\<close> and \<open>error.message\<close> (empty when absent).
\<close>

record js_error =
  code :: "jsstring option"
  response_status :: "int option"
  message :: jsstring

definition getErrorMessage :: "js_error \<Rightarrow> jsstring" where
  "getErrorMessage e =
     (if code e = Some (of_ascii ''ENOTFOUND'')
        then of_ascii ''Website not found. Please check the URL.''
      else if code e = Some (of_ascii ''ECONNREFUSED'')
        then of_ascii ''Connection refused. The website may be down.''
      else if code e = Some (of_ascii ''ETIMEDOUT'')
        then of_ascii ''Request timed out. Please try again.''
      else if response_status e = Some 403
        then of_ascii ''Access forbidden. This website blocks automated requests.''
      else if response_status e = Some 404
        then of_ascii ''Page not found. Please check the URL.''
      else if (case response_status e of None \<Rightarrow> False | Some s \<Rightarrow> s \<ge> 500)
        then of_ascii ''Server error. Please try again later.''
      else or_else (message e) (of_ascii ''An unexpected error occurred while scraping.''))"

text \<open>\<open>new Error(`Insufficient content extracted (${content.length} chars)`)\<close>.\<close>

definition insufficient_content :: "nat \<Rightarrow> js_error" where
  "insufficient_content n =
     \<lparr> code = None, response_status = None,
       message = of_ascii ''Insufficient content extracted ('' @ show_nat n @ of_ascii '' chars)'' \<rparr>"

subsection \<open>The environment of a call\<close>

text \<open>
  What the scraper takes from outside the repository: the URL constructor
  (\<open>url_protocol u\<close> is \<open>new URL(u).protocol\<close>, \<open>None\<close> when the constructor throws),
  the network (\<open>axios_get u options n\<close> is what the \<open>n\<close>-th request of the call yields:
  the response body, or the error axios throws), and the HTML parser \<open>cheerio.load\<close>.
\<close>

record env =
  url_protocol :: "jsstring \<Rightarrow> jsstring option"
  axios_get :: "jsstring \<Rightarrow> ScrapingOptions \<Rightarrow> nat \<Rightarrow> js_error + jsstring"
  cheerio_load :: "jsstring \<Rightarrow> doc"

text \<open>What a call does to the outside, in order: requests (numbered) and backoff sleeps (ms).\<close>

datatype event = Request nat | Sleep nat

text \<open>A promise resolves with a result or rejects with an uncaught exception.\<close>

datatype outcome = Resolved ScrapingResult | Rejected

definition isValidUrl :: "env \<Rightarrow> jsstring \<Rightarrow> bool" where
  "isValidUrl w u =
     (case url_protocol w u of
        None \<Rightarrow> False
      | Some protocol \<Rightarrow> protocol = of_ascii ''http:'' \<or> protocol = of_ascii ''https:'')"

definition makeRequest :: "env \<Rightarrow> jsstring \<Rightarrow> ScrapingOptions \<Rightarrow> nat \<Rightarrow> js_error + jsstring" where
  "makeRequest w u options n = axios_get w u options n"

text \<open>\<open>{ ...DEFAULT_OPTIONS, ...options }\<close>: a field of \<open>options\<close> that is present overrides.\<close>

definition merge_options :: "ScrapingOptions \<Rightarrow> ScrapingOptions \<Rightarrow> ScrapingOptions" where
  "merge_options defaults options = \<lparr>
     timeout = (case timeout options of None \<Rightarrow> timeout defaults | Some v \<Rightarrow> Some v),
     retries = (case retries options of None \<Rightarrow> retries defaults | Some v \<Rightarrow> Some v),
     userAgent = (case userAgent options of None \<Rightarrow> userAgent defaults | Some v \<Rightarrow> Some v),
     headers = (case headers options of None \<Rightarrow> headers defaults | Some v \<Rightarrow> Some v) \<rparr>"

text \<open>
  \<open>finalOptions.retries!\<close>, an integer.  After the merge the field is present; an absent
  value would compare false with every attempt number, as 0 does.
\<close>

definition retries_of :: "ScrapingOptions \<Rightarrow> int" where
  "retries_of finalOptions = (case retries finalOptions of None \<Rightarrow> 0 | Some r \<Rightarrow> r)"

text \<open>The metadata block of an attempt.\<close>

definition page_metadata :: "doc \<Rightarrow> jsstring \<Rightarrow> Metadata" where
  "page_metadata d u =
     (let page_title = or_else (selection_text (query (Tag ''title'') d))
                         (or_else (first_text (query (Tag ''h1'') d)) []);
          page_description =
            opt_or_else (attr (query (TagAttr ''meta'' ''name'' ''description'') d) ''content'')
              (opt_or_else (attr (query (TagAttr ''meta'' ''property'' ''og:description'') d) ''content'') [])
      in \<lparr> title = Some (cleanText page_title),
           description = Some (cleanText page_description),
           url = u \<rparr>)"

subsection \<open>scrapeBlogText\<close>

record loop_state =
  lastError :: "js_error option"
  bestContent :: jsstring
  bestMetadata :: Metadata

datatype completion = Return ScrapingResult | Throw js_error

definition backoff_delay :: "nat \<Rightarrow> nat" where
  "backoff_delay attempt = min (1000 * 2 ^ (attempt - 1)) 5000"

text \<open>The \<open>try\<close> block of one attempt: it returns from the function or throws.\<close>

definition try_attempt ::
  "env \<Rightarrow> jsstring \<Rightarrow> ScrapingOptions \<Rightarrow> nat \<Rightarrow> loop_state \<Rightarrow> completion \<times> loop_state" where
  "try_attempt w u finalOptions attempt st =
     (case makeRequest w u finalOptions attempt of
        Inl e \<Rightarrow> (Throw e, st)
      | Inr html \<Rightarrow>
          let d = cheerio_load w html;
              page_meta = page_metadata d u;
              page_content = fst (extractMainContent d);
              st1 = (if length page_content > length (bestContent st)
                     then st\<lparr>bestContent := page_content, bestMetadata := page_meta\<rparr>
                     else st)
          in if length page_content \<ge> 100
             then (Return \<lparr> success = True, content = Some page_content, error = None,
                             metadata = Some page_meta \<rparr>, st1)
             else if int attempt = retries_of finalOptions \<and> length (bestContent st1) > 0
             then (Return \<lparr> success = True, content = Some (bestContent st1), error = None,
                             metadata = Some (bestMetadata st1) \<rparr>, st1)
             else (Throw (insufficient_content (length page_content)), st1))"

text \<open>
  The code after the loop.  When no attempt ran, \<open>lastError\<close> is still undefined and
  \<open>getErrorMessage\<close> throws on reading \<open>error.code\<close>: the promise rejects.
\<close>

definition after_loop :: "jsstring \<Rightarrow> loop_state \<Rightarrow> outcome" where
  "after_loop u st =
     (if length (bestContent st) > 0
      then Resolved \<lparr> success = True, content = Some (bestContent st), error = None,
                      metadata = Some (bestMetadata st) \<rparr>
      else (case lastError st of
              None \<Rightarrow> Rejected
            | Some e \<Rightarrow>
                Resolved \<lparr> success = False, content = None, error = Some (getErrorMessage e),
                           metadata = Some \<lparr> title = None, description = None, url = u \<rparr> \<rparr>))"

text \<open>
  The \<open>for\<close> loop from \<open>attempt\<close> on, with the code after it.  The result comes with the
  events from this attempt on.
\<close>

function scrape_loop ::
  "env \<Rightarrow> jsstring \<Rightarrow> ScrapingOptions \<Rightarrow> nat \<Rightarrow> loop_state \<Rightarrow> outcome \<times> event list" where
  "scrape_loop w u finalOptions attempt st =
     (if int attempt \<le> retries_of finalOptions then
        (case try_attempt w u finalOptions attempt st of
           (Return r, st') \<Rightarrow> (Resolved r, [Request attempt])
         | (Throw e, st') \<Rightarrow>
             (case scrape_loop w u finalOptions (Suc attempt) (st'\<lparr>lastError := Some e\<rparr>) of
                (r, evs) \<Rightarrow>
                  (r, Request attempt #
                      (if int attempt < retries_of finalOptions
                       then [Sleep (backoff_delay attempt)] else []) @ evs)))
      else (after_loop u st, []))"
  by pat_completeness auto
termination
  by (relation "measure (\<lambda>(w, u, finalOptions, attempt, st).
                   nat (retries_of finalOptions + 1 - int attempt))") auto

declare scrape_loop.simps [simp del]

definition scrapeBlogText :: "env \<Rightarrow> jsstring \<Rightarrow> ScrapingOptions \<Rightarrow> outcome \<times> event list" where
  "scrapeBlogText w u options =
     (let finalOptions = merge_options DEFAULT_OPTIONS options
      in if u = [] \<or> \<not> isValidUrl w u
         then (Resolved \<lparr> success = False, content = None,
                          error = Some (of_ascii ''Invalid URL provided''), metadata = None \<rparr>, [])
         else scrape_loop w u finalOptions 1
                \<lparr> lastError = None, bestContent = [],
                  bestMetadata = \<lparr> title = None, description = None, url = u \<rparr> \<rparr>)"

text \<open>A call without the second argument: \<open>options = {}\<close>.\<close>

definition no_options :: ScrapingOptions where
  "no_options = \<lparr> timeout = None, retries = None, userAgent = None, headers = None \<rparr>"

subsection \<open>scrapeWithFallback\<close>

definition samples :: "jsstring list" where
  "samples = [
     of_ascii ''Artificial Intelligence has revolutionized how we approach problem-solving in the modern world. From machine learning algorithms that can predict consumer behavior to neural networks that can recognize patterns in vast datasets, AI is transforming industries across the globe. The integration of AI into everyday applications has made our lives more efficient and opened up new possibilities for innovation. As we continue to advance in this field, we must also consider the ethical implications and ensure that AI development remains aligned with human values and societal needs.'',
     of_ascii ''Web development has evolved significantly over the past decade, with new frameworks and technologies emerging regularly. Modern web applications require responsive design, fast loading times, and seamless user experiences across all devices. The rise of JavaScript frameworks like React, Vue, and Angular has changed how developers build interactive user interfaces. Additionally, the adoption of cloud services and serverless architectures has made it easier to deploy and scale web applications globally.'',
     of_ascii ''Sustainable technology is becoming increasingly important as we face environmental challenges. Green computing initiatives focus on reducing energy consumption in data centers, while renewable energy technologies are making clean power more accessible. Electric vehicles are revolutionizing transportation, and smart city technologies are optimizing resource usage in urban environments. These innovations demonstrate how technology can be a powerful tool for addressing climate change and creating a more sustainable future.'']"

text \<open>
  The hash is a 32-bit integer: \<open>&\<close> and \<open><<\<close> work on the operands' 32-bit two's
  complement values, and \<open>Math.abs\<close> takes the signed reading.
\<close>

definition url_hash :: "jsstring \<Rightarrow> 32 word" where
  "url_hash u = foldl (\<lambda>a b. (push_bit 5 a - a + ucast b) AND 0xffffffff) 0 u"

definition generateSampleContent :: "jsstring \<Rightarrow> jsstring" where
  "generateSampleContent u = samples ! (nat \<bar>sint (url_hash u)\<bar> mod length samples)"

definition scrapeWithFallback :: "env \<Rightarrow> jsstring \<Rightarrow> outcome \<times> event list" where
  "scrapeWithFallback w u =
     (case scrapeBlogText w u no_options of
        (Rejected, evs) \<Rightarrow> (Rejected, evs)
      | (Resolved result, evs) \<Rightarrow>
          if \<not> success result
          then (Resolved \<lparr> success = True, content = Some (generateSampleContent u), error = None,
                           metadata = Some \<lparr> title = Some (of_ascii ''Sample Blog Post''),
                             description = Some (of_ascii ''This is sample content for demonstration purposes.''),
                             url = u \<rparr> \<rparr>, evs)
          else (Resolved result, evs))"

section \<open>Observations on a call\<close>

text \<open>
  What the \<open>n\<close>-th attempt of a call sees, read off the environment: the page it
  extracts (content and metadata) when the request succeeds, whether that content
  reaches the 100-character threshold, and the error the attempt throws otherwise.
\<close>

definition attempt_page ::
  "env \<Rightarrow> jsstring \<Rightarrow> ScrapingOptions \<Rightarrow> nat \<Rightarrow> (jsstring \<times> Metadata) option" where
  "attempt_page w u finalOptions n =
     (case makeRequest w u finalOptions n of
        Inl e \<Rightarrow> None
      | Inr html \<Rightarrow>
          Some (fst (extractMainContent (cheerio_load w html)),
                page_metadata (cheerio_load w html) u))"

definition sufficient :: "env \<Rightarrow> jsstring \<Rightarrow> ScrapingOptions \<Rightarrow> nat \<Rightarrow> bool" where
  "sufficient w u finalOptions n =
     (case attempt_page w u finalOptions n of None \<Rightarrow> False | Some p \<Rightarrow> length (fst p) \<ge> 100)"

definition attempt_error :: "env \<Rightarrow> jsstring \<Rightarrow> ScrapingOptions \<Rightarrow> nat \<Rightarrow> js_error" where
  "attempt_error w u finalOptions n =
     (case makeRequest w u finalOptions n of
        Inl e \<Rightarrow> e
      | Inr html \<Rightarrow> insufficient_content (length (fst (extractMainContent (cheerio_load w html)))))"

text \<open>The tracking of the best attempt, and the loop state after an attempt that threw.\<close>

definition keep_best :: "jsstring \<times> Metadata \<Rightarrow> (jsstring \<times> Metadata) option \<Rightarrow> jsstring \<times> Metadata" where
  "keep_best best page =
     (case page of
        None \<Rightarrow> best
      | Some p \<Rightarrow> if length (fst p) > length (fst best) then p else best)"

definition advance :: "env \<Rightarrow> jsstring \<Rightarrow> ScrapingOptions \<Rightarrow> loop_state \<Rightarrow> nat \<Rightarrow> loop_state" where
  "advance w u finalOptions st n =
     (let best = keep_best (bestContent st, bestMetadata st) (attempt_page w u finalOptions n)
      in \<lparr> lastError = Some (attempt_error w u finalOptions n),
           bestContent = fst best, bestMetadata = snd best \<rparr>)"

definition ok_result :: "jsstring \<Rightarrow> Metadata \<Rightarrow> ScrapingResult" where
  "ok_result c m = \<lparr> success = True, content = Some c, error = None, metadata = Some m \<rparr>"

text \<open>The events of attempts \<open>a\<close> to \<open>k\<close> when every attempt before \<open>k\<close> is followed by its backoff.\<close>

definition backoff_trace :: "nat \<Rightarrow> nat \<Rightarrow> event list" where
  "backoff_trace a k = concat (map (\<lambda>j. [Request j, Sleep (backoff_delay j)]) [a..<k]) @ [Request k]"

section \<open>Example environments\<close>

text \<open>
  \<open>cheerio.load\<close> of a body without markup: the text becomes the only child of
  \<open>body\<close>.  The example environments answer the \<open>n\<close>-th request from a table.
\<close>

definition plain_page :: "jsstring \<Rightarrow> doc" where
  "plain_page body =
     [Element ''html'' [] [Element ''head'' [] [], Element ''body'' [] [Text body]]]"

definition demo_protocol :: "jsstring \<Rightarrow> jsstring option" where
  "demo_protocol u =
     (if is_prefix (of_ascii ''http://'') u then Some (of_ascii ''http:'')
      else if is_prefix (of_ascii ''ftp://'') u then Some (of_ascii ''ftp:'')
      else None)"

definition timed_out :: js_error where
  "timed_out = \<lparr> code = Some (of_ascii ''ETIMEDOUT''), response_status = None,
                 message = of_ascii ''timeout of 10000ms exceeded'' \<rparr>"

definition demo_env :: "(nat \<Rightarrow> js_error + jsstring) \<Rightarrow> env" where
  "demo_env responses =
     \<lparr> url_protocol = demo_protocol,
       axios_get = (\<lambda>u options n. responses n),
       cheerio_load = plain_page \<rparr>"

definition long_text :: jsstring where
  "long_text = replicate 120 0x61"

definition offline_env :: env where
  "offline_env = demo_env (\<lambda>n. Inl timed_out)"

definition best_effort_env :: env where
  "best_effort_env =
     demo_env (\<lambda>n. Inr (if n = 1 then of_ascii ''short''
                        else if n = 2 then of_ascii ''a longer text''
                        else of_ascii ''tiny''))"

definition flaky_env :: env where
  "flaky_env = demo_env (\<lambda>n. if n < 3 then Inl timed_out else Inr long_text)"

text \<open>Example documents: an article of 1001 characters beside a short teaser, and a page of three paragraphs.\<close>

definition article_text :: jsstring where
  "article_text = replicate 1001 0x61"

definition article_doc :: doc where
  "article_doc =
     [Element ''html'' []
        [Element ''head'' [] [Element ''title'' [] [Text (of_ascii ''A post'')]],
         Element ''body'' []
           [Element ''nav'' [] [Text (of_ascii ''Home'')],
            Element ''div'' [(''class'', of_ascii ''content'')] [Text (of_ascii ''A teaser'')],
            Element ''article'' [] [Text article_text],
            Element ''p'' [] [Text (of_ascii ''A paragraph outside the article.'')]]]]"

definition paragraph_doc :: doc where
  "paragraph_doc =
     [Element ''html'' []
        [Element ''head'' [] [Element ''title'' [] [Text (of_ascii ''Three paragraphs'')]],
         Element ''body'' []
           [Element ''p'' [] [Text (of_ascii ''The first paragraph of the page.'')],
            Element ''p'' [] [Text (of_ascii ''The second paragraph of the page.'')],
            Element ''p'' [] [Text (of_ascii ''The third paragraph of the page.'')]]]]"

section \<open>Text cleaning\<close>

lemma replace_runs_none: "\<forall>c \<in> set s. \<not> P c \<Longrightarrow> replace_runs P r s = s"
  by (induction s) auto

lemma is_newline_space: "is_newline c \<Longrightarrow> is_space c"
  by (simp add: is_newline_def is_space_def)

lemma replace_runs_set:
  "set (replace_runs P r s) \<subseteq> insert r {c \<in> set s. \<not> P c}"
proof (induction P r s rule: replace_runs.induct)
  case (1 P r)
  show ?case by simp
next
  case (2 P r c cs)
  show ?case
  proof (cases "P c")
    case True
    have "set (dropWhile P cs) \<subseteq> set cs" by (rule set_dropWhileD [THEN subsetI])
    with 2(1) [OF True] True show ?thesis by auto
  next
    case False
    with 2(2) [OF False] show ?thesis by auto
  qed
qed

lemma collapsed_no_newline: "\<not> is_newline c" if "c \<in> set (replace_runs is_space 0x20 s)"
proof -
  from that replace_runs_set [of is_space "0x20" s] have "c = 0x20 \<or> \<not> is_space c" by auto
  then show ?thesis
    by (auto simp: is_newline_def is_space_def)
qed

lemma cleanText_eq: "cleanText s = trim (replace_runs is_space 0x20 s)"
  by (simp add: cleanText_def replace_runs_none collapsed_no_newline)

lemma trim_subset: "set (trim s) \<subseteq> set s"
proof -
  have "set (dropWhile is_space (rev (dropWhile is_space s))) \<subseteq> set (rev (dropWhile is_space s))"
    by (rule set_dropWhileD [THEN subsetI])
  moreover have "set (dropWhile is_space s) \<subseteq> set s"
    by (rule set_dropWhileD [THEN subsetI])
  ultimately show ?thesis by (auto simp: trim_def)
qed

lemma cleanText_no_newline: "0x0A \<notin> set (cleanText s)"
proof
  assume "0x0A \<in> set (cleanText s)"
  then have "0x0A \<in> set (replace_runs is_space 0x20 s)"
    using trim_subset by (auto simp: cleanText_eq)
  then show False using collapsed_no_newline [of "0x0A" s] by (simp add: is_newline_def)
qed

lemma trim_no_space:
  assumes "\<forall>c \<in> set s. \<not> is_space c"
  shows "trim s = s"
proof -
  have keep: "dropWhile is_space t = t" if "\<forall>c \<in> set t. \<not> is_space c" for t
    using that by (cases t) auto
  have "dropWhile is_space (rev s) = rev s"
    using assms by (intro keep) simp
  then show ?thesis
    using assms by (simp add: trim_def keep)
qed

lemma cleanText_no_space: "\<forall>c \<in> set s. \<not> is_space c \<Longrightarrow> cleanText s = s"
  by (simp add: cleanText_eq replace_runs_none trim_no_space)

text \<open>
  What \<open>cleanText\<close> keeps and removes: the cleaned text neither starts nor ends with
  white space, and its characters other than white space are those of the input, in
  order.
\<close>

lemma last_dropWhile_nonempty: "dropWhile P xs \<noteq> [] \<Longrightarrow> last (dropWhile P xs) = last xs"
  by (induction xs) (auto split: if_splits)

lemma trim_ends: "trim s = [] \<or> (\<not> is_space (hd (trim s)) \<and> \<not> is_space (last (trim s)))"
proof (cases "trim s = []")
  case True
  then show ?thesis by simp
next
  case False
  let ?a = "dropWhile is_space s"
  let ?b = "dropWhile is_space (rev ?a)"
  from False have b: "?b \<noteq> []" by (simp add: trim_def)
  then have "\<not> is_space (hd ?b)" by (rule hd_dropWhile)
  then have last: "\<not> is_space (last (trim s))"
    using b by (simp add: trim_def last_rev)
  from b have a: "?a \<noteq> []" by (metis dropWhile.simps(1) rev.simps(1))
  then have "\<not> is_space (hd ?a)" by (rule hd_dropWhile)
  moreover have "hd (trim s) = last ?b"
    using b by (simp add: trim_def hd_rev)
  moreover have "last ?b = last (rev ?a)"
    using b by (rule last_dropWhile_nonempty)
  moreover have "last (rev ?a) = hd ?a"
    using a by (simp add: last_rev)
  ultimately have "\<not> is_space (hd (trim s))" by simp
  with last show ?thesis by simp
qed

lemma cleanText_ends:
  "cleanText s = [] \<or> (\<not> is_space (hd (cleanText s)) \<and> \<not> is_space (last (cleanText s)))"
  unfolding cleanText_eq by (rule trim_ends)

lemma filter_dropWhile_space: "filter (\<lambda>c. \<not> P c) (dropWhile P s) = filter (\<lambda>c. \<not> P c) s"
  by (induction s) simp_all

lemma filter_replace_runs: "P r \<Longrightarrow> filter (\<lambda>c. \<not> P c) (replace_runs P r s) = filter (\<lambda>c. \<not> P c) s"
  by (induction P r s rule: replace_runs.induct) (simp_all add: filter_dropWhile_space)

lemma filter_trim: "filter (\<lambda>c. \<not> is_space c) (trim s) = filter (\<lambda>c. \<not> is_space c) s"
proof -
  have "filter (\<lambda>c. \<not> is_space c) (trim s) =
          rev (filter (\<lambda>c. \<not> is_space c) (dropWhile is_space (rev (dropWhile is_space s))))"
    by (simp add: trim_def rev_filter)
  also have "\<dots> = rev (filter (\<lambda>c. \<not> is_space c) (rev (dropWhile is_space s)))"
    by (simp only: filter_dropWhile_space)
  also have "\<dots> = filter (\<lambda>c. \<not> is_space c) (dropWhile is_space s)"
    by (simp add: rev_filter)
  finally show ?thesis by (simp only: filter_dropWhile_space)
qed

lemma cleanText_keeps_text:
  "filter (\<lambda>c. \<not> is_space c) (cleanText s) = filter (\<lambda>c. \<not> is_space c) s"
proof -
  have "is_space 0x20" by (simp add: is_space_def)
  then show ?thesis by (simp add: cleanText_eq filter_trim filter_replace_runs)
qed

lemma cleanText_example:
  "cleanText (of_ascii ''a'' @ [0x0A, 0x0A] @ of_ascii ''b'') = of_ascii ''a b''"
  by (simp add: cleanText_def trim_def of_ascii_def is_space_def is_newline_def)


section \<open>Folds that keep the first longest element\<close>

text \<open>
  A fold whose step replaces the state only by a strictly larger element ends at the
  start state, or at the first element of maximal measure.  The selector cascade and the
  tracking of the best attempt are both such folds.
\<close>

lemma foldl_first_longest:
  fixes step :: "'b \<Rightarrow> 'x \<Rightarrow> 'b" and m :: "'x \<Rightarrow> nat" and mb :: "'b \<Rightarrow> nat" and inj :: "'x \<Rightarrow> 'b"
  assumes step: "\<And>b x. step b x = (if m x > mb b then inj x else b)"
      and inj: "\<And>x. mb (inj x) = m x"
  shows "(foldl step b0 xs = b0 \<and> (\<forall>j<length xs. m (xs ! j) \<le> mb b0)) \<or>
         (\<exists>i<length xs. foldl step b0 xs = inj (xs ! i) \<and> mb b0 < m (xs ! i) \<and>
            (\<forall>j<i. m (xs ! j) < m (xs ! i)) \<and> (\<forall>j<length xs. m (xs ! j) \<le> m (xs ! i)))"
proof (induction xs rule: rev_induct)
  case Nil
  show ?case by simp
next
  case (snoc x xs)
  let ?b = "foldl step b0 xs"
  have fold: "foldl step b0 (xs @ [x]) = (if m x > mb ?b then inj x else ?b)"
    by (simp add: step)
  from snoc.IH show ?case
  proof (elim disjE conjE exE)
    assume eq: "?b = b0" and le: "\<forall>j<length xs. m (xs ! j) \<le> mb b0"
    show ?thesis
    proof (cases "m x > mb b0")
      case True
      have "length xs < length (xs @ [x]) \<and> foldl step b0 (xs @ [x]) = inj ((xs @ [x]) ! length xs) \<and>
            mb b0 < m ((xs @ [x]) ! length xs) \<and>
            (\<forall>j<length xs. m ((xs @ [x]) ! j) < m ((xs @ [x]) ! length xs)) \<and>
            (\<forall>j<length (xs @ [x]). m ((xs @ [x]) ! j) \<le> m ((xs @ [x]) ! length xs))"
        using True le eq fold by (auto simp: nth_append less_Suc_eq dest: le_less_trans)
      then show ?thesis by blast
    next
      case False
      then have "foldl step b0 (xs @ [x]) = b0 \<and> (\<forall>j<length (xs @ [x]). m ((xs @ [x]) ! j) \<le> mb b0)"
        using le eq fold by (auto simp: nth_append less_Suc_eq)
      then show ?thesis by blast
    qed
  next
    fix i
    assume i: "i < length xs" and eq: "?b = inj (xs ! i)" and gt: "mb b0 < m (xs ! i)"
      and before: "\<forall>j<i. m (xs ! j) < m (xs ! i)" and all: "\<forall>j<length xs. m (xs ! j) \<le> m (xs ! i)"
    show ?thesis
    proof (cases "m x > m (xs ! i)")
      case True
      have "length xs < length (xs @ [x]) \<and> foldl step b0 (xs @ [x]) = inj ((xs @ [x]) ! length xs) \<and>
            mb b0 < m ((xs @ [x]) ! length xs) \<and>
            (\<forall>j<length xs. m ((xs @ [x]) ! j) < m ((xs @ [x]) ! length xs)) \<and>
            (\<forall>j<length (xs @ [x]). m ((xs @ [x]) ! j) \<le> m ((xs @ [x]) ! length xs))"
        using True all eq fold gt inj by (auto simp: nth_append less_Suc_eq dest: le_less_trans)
      then show ?thesis by blast
    next
      case False
      have "i < length (xs @ [x]) \<and> foldl step b0 (xs @ [x]) = inj ((xs @ [x]) ! i) \<and>
            mb b0 < m ((xs @ [x]) ! i) \<and>
            (\<forall>j<i. m ((xs @ [x]) ! j) < m ((xs @ [x]) ! i)) \<and>
            (\<forall>j<length (xs @ [x]). m ((xs @ [x]) ! j) \<le> m ((xs @ [x]) ! i))"
        using False all eq fold gt inj i before by (auto simp: nth_append less_Suc_eq)
      then show ?thesis by blast
    qed
  qed
qed

lemma foldl_concat_map:
  "foldl (\<lambda>b s. foldl f b (g s)) b0 sels = foldl f b0 (concat (map g sels))"
  by (induction sels arbitrary: b0) simp_all


section \<open>Noise removal\<close>

text \<open>
  Removing the matches of a selector leaves no match of it and adds no match of any
  other selector: every selector tests an element's own tag and attributes only.
\<close>

lemma matches_remove_below: "matches s (remove_below s' n) = matches s n"
  by (cases n; cases s) simp_all

lemma matches_in_elements: "matches s n \<Longrightarrow> n \<in> set (elements n)"
  by (cases n) simp_all

lemma remove_below_id:
  "\<forall>e \<in> set (elements n). \<not> matches s e \<Longrightarrow> remove_below s n = n"
proof (induction n)
  case (Text t)
  show ?case by simp
next
  case (Element tg as cs)
  have none: "\<not> matches s e" if "c \<in> set cs" "e \<in> set (elements c)" for c e
    using Element.prems that by auto
  have keep: "\<not> matches s c" if "c \<in> set cs" for c
    using none [OF that] matches_in_elements by blast
  have same: "remove_below s c = c" if "c \<in> set cs" for c
    using Element.IH [OF that] none [OF that] by blast
  have "filter (\<lambda>n. \<not> matches s n) cs = cs"
    using keep by (simp add: filter_id_conv)
  moreover have "map (remove_below s) cs = cs"
    using same by (simp add: map_idI)
  ultimately show ?case by simp
qed

lemma elements_remove_below:
  "e \<in> set (elements (remove_below s n)) \<Longrightarrow>
     e = remove_below s n \<or> (\<exists>e' \<in> set (elements n). \<not> matches s e' \<and> e = remove_below s e')"
proof (induction n)
  case (Text t)
  then show ?case by simp
next
  case (Element tg as cs)
  show ?case
  proof (cases "e = remove_below s (Element tg as cs)")
    case True
    then show ?thesis by simp
  next
    case False
    with Element.prems obtain c where c: "c \<in> set cs" "\<not> matches s c"
      "e \<in> set (elements (remove_below s c))"
      by auto
    from Element.IH [OF c(1) c(3)] show ?thesis
    proof
      assume e: "e = remove_below s c"
      with c(3) have "c \<in> set (elements c)" by (cases c) simp_all
      with c(1,2) e show ?thesis by auto
    next
      assume "\<exists>e' \<in> set (elements c). \<not> matches s e' \<and> e = remove_below s e'"
      with c(1) show ?thesis by auto
    qed
  qed
qed

lemma elements_remove:
  assumes "e \<in> set (concat (map elements (remove s d)))"
  shows "\<exists>e' \<in> set (concat (map elements d)). \<not> matches s e' \<and> e = remove_below s e'"
proof -
  from assms obtain c where c: "c \<in> set d" "\<not> matches s c" "e \<in> set (elements (remove_below s c))"
    by (auto simp: remove_def)
  from elements_remove_below [OF c(3)] show ?thesis
  proof
    assume e: "e = remove_below s c"
    with c(3) have "c \<in> set (elements c)" by (cases c) simp_all
    with c(1,2) e show ?thesis by auto
  next
    assume "\<exists>e' \<in> set (elements c). \<not> matches s e' \<and> e = remove_below s e'"
    with c(1) show ?thesis by auto
  qed
qed

lemma remove_no_match: "e \<in> set (concat (map elements (remove s d))) \<Longrightarrow> \<not> matches s e"
  using elements_remove [of e s d] by (auto simp: matches_remove_below)

lemma remove_preserves_no_match:
  assumes "\<forall>e \<in> set (concat (map elements d)). \<not> matches s e"
      and "e \<in> set (concat (map elements (remove s' d)))"
  shows "\<not> matches s e"
  using elements_remove [OF assms(2)] assms(1) by (auto simp: matches_remove_below)

lemma remove_id:
  assumes "\<forall>e \<in> set (concat (map elements d)). \<not> matches s e"
  shows "remove s d = d"
proof -
  have none: "\<not> matches s e" if "c \<in> set d" "e \<in> set (elements c)" for c e
    using assms that by auto
  have keep: "\<not> matches s c" if "c \<in> set d" for c
    using none [OF that] matches_in_elements by blast
  have same: "remove_below s c = c" if "c \<in> set d" for c
    using remove_below_id [of c s] none [OF that] by blast
  have "filter (\<lambda>n. \<not> matches s n) d = d"
    using keep by (simp add: filter_id_conv)
  moreover have "map (remove_below s) d = d"
    using same by (simp add: map_idI)
  ultimately show ?thesis by (simp add: remove_def)
qed

lemma remove_all_no_match:
  "s \<in> set sels \<Longrightarrow> e \<in> set (concat (map elements (foldl (\<lambda>d' s. remove s d') d sels))) \<Longrightarrow>
     \<not> matches s e"
proof (induction sels arbitrary: e rule: rev_induct)
  case Nil
  then show ?case by simp
next
  case (snoc s' sels)
  let ?d = "foldl (\<lambda>d' s. remove s d') d sels"
  from snoc.prems(2) have e: "e \<in> set (concat (map elements (remove s' ?d)))" by simp
  show ?case
  proof (cases "s = s'")
    case True
    with e show ?thesis by (simp add: remove_no_match)
  next
    case False
    with snoc.prems(1) have "s \<in> set sels" by simp
    then have "\<forall>e \<in> set (concat (map elements ?d)). \<not> matches s e"
      using snoc.IH by blast
    from remove_preserves_no_match [OF this e] show ?thesis .
  qed
qed

lemma remove_all_id:
  "\<forall>s \<in> set sels. \<forall>e \<in> set (concat (map elements d)). \<not> matches s e \<Longrightarrow>
     foldl (\<lambda>d' s. remove s d') d sels = d"
  by (induction sels) (simp_all add: remove_id)

lemma strip_noise_idem: "strip_noise (strip_noise d) = strip_noise d"
  unfolding strip_noise_def
  by (rule remove_all_id) (blast dest: remove_all_no_match)

lemma extract_leaves_stripped: "snd (extractMainContent d) = strip_noise d"
  by (simp add: extractMainContent_def Let_def)


section \<open>The selector cascade\<close>

lemma cascade_first_longest:
  "(foldl consider_element ([], 0) es = ([], 0) \<and>
      (\<forall>j<length es. length (cleanText (text_of (es ! j))) = 0)) \<or>
   (\<exists>i<length es.
      foldl consider_element ([], 0) es =
        (cleanText (text_of (es ! i)), length (cleanText (text_of (es ! i)))) \<and>
      0 < length (cleanText (text_of (es ! i))) \<and>
      (\<forall>j<i. length (cleanText (text_of (es ! j))) < length (cleanText (text_of (es ! i)))) \<and>
      (\<forall>j<length es. length (cleanText (text_of (es ! j))) \<le> length (cleanText (text_of (es ! i)))))"
proof -
  define m where "m = (\<lambda>e. length (cleanText (text_of e)))"
  have step: "consider_element b e = (if m e > snd b then (cleanText (text_of e), m e) else b)" for b e
    by (simp add: consider_element_def m_def Let_def)
  have inj: "snd (cleanText (text_of e), m e) = m e" for e by simp
  from foldl_first_longest [where step = consider_element and m = m and mb = snd
      and inj = "\<lambda>e. (cleanText (text_of e), m e)" and ?b0.0 = "([], 0)" and xs = es, OF step inj]
  show ?thesis by (simp add: m_def)
qed

lemma cascade_no_newline:
  "0x0A \<notin> set (fst b) \<Longrightarrow> 0x0A \<notin> set (fst (foldl consider_element b es))"
  by (induction es arbitrary: b) (simp_all add: consider_element_def Let_def cleanText_no_newline)

lemma selector_cascade_no_newline: "0x0A \<notin> set (fst (selector_cascade d))"
  unfolding selector_cascade_def foldl_concat_map
  by (rule cascade_no_newline) simp

lemma extract_no_newline: "0x0A \<notin> set (fst (extractMainContent d))"
  by (simp add: extractMainContent_def Let_def cleanText_no_newline selector_cascade_no_newline)


section \<open>The retry loop\<close>

text \<open>
  One step of the loop in each of its three cases, then the two runs a call can take:
  up to the first attempt with sufficient content, or through all attempts.
\<close>

lemma loop_state_eqI:
  "lastError s = lastError t \<Longrightarrow> bestContent s = bestContent t \<Longrightarrow> bestMetadata s = bestMetadata t
   \<Longrightarrow> (s :: loop_state) = t"
  by simp

lemma loop_sufficient_now:
  assumes "int a \<le> retries_of fo" "attempt_page w u fo a = Some (c, m)" "length c \<ge> 100"
  shows "scrape_loop w u fo a st = (Resolved (ok_result c m), [Request a])"
  using assms
  by (subst scrape_loop.simps)
     (auto simp: try_attempt_def attempt_page_def ok_result_def Let_def split: sum.splits)

lemma loop_insufficient_more:
  assumes "int a < retries_of fo" "\<not> sufficient w u fo a"
  shows "scrape_loop w u fo a st =
           (fst (scrape_loop w u fo (Suc a) (advance w u fo st a)),
            Request a # Sleep (backoff_delay a) # snd (scrape_loop w u fo (Suc a) (advance w u fo st a)))"
proof (cases "makeRequest w u fo a")
  case (Inl e)
  then have adv: "advance w u fo st a = st\<lparr>lastError := Some e\<rparr>"
    by (simp add: advance_def attempt_page_def attempt_error_def keep_best_def)
  show ?thesis
    using assms(1) Inl unfolding adv
    by (subst scrape_loop.simps) (simp add: try_attempt_def split: prod.splits)
next
  case (Inr html)
  let ?c = "fst (extractMainContent (cheerio_load w html))"
  let ?m = "page_metadata (cheerio_load w html) u"
  from Inr assms(2) have small: "\<not> 100 \<le> length ?c"
    by (simp add: sufficient_def attempt_page_def)
  let ?st1 = "if length ?c > length (bestContent st)
              then st\<lparr>bestContent := ?c, bestMetadata := ?m\<rparr> else st"
  have adv: "advance w u fo st a = ?st1\<lparr>lastError := Some (insufficient_content (length ?c))\<rparr>"
    using Inr by (simp add: advance_def attempt_page_def attempt_error_def keep_best_def)
  show ?thesis
    using assms(1) Inr small unfolding adv
    by (subst scrape_loop.simps) (simp add: try_attempt_def Let_def split: prod.splits)
qed

lemma loop_insufficient_last:
  assumes "int a = retries_of fo" "\<not> sufficient w u fo a"
  shows "scrape_loop w u fo a st = (after_loop u (advance w u fo st a), [Request a])"
proof (cases "makeRequest w u fo a")
  case (Inl e)
  then have adv: "advance w u fo st a = st\<lparr>lastError := Some e\<rparr>"
    by (simp add: advance_def attempt_page_def attempt_error_def keep_best_def)
  have nxt: "scrape_loop w u fo (Suc a) s = (after_loop u s, [])" for s
    using assms(1) by (subst scrape_loop.simps) simp
  show ?thesis
    using assms(1) Inl unfolding adv
    by (subst scrape_loop.simps) (simp add: try_attempt_def nxt)
next
  case (Inr html)
  let ?c = "fst (extractMainContent (cheerio_load w html))"
  let ?m = "page_metadata (cheerio_load w html) u"
  from Inr assms(2) have small: "\<not> 100 \<le> length ?c"
    by (simp add: sufficient_def attempt_page_def)
  let ?st1 = "if length ?c > length (bestContent st)
              then st\<lparr>bestContent := ?c, bestMetadata := ?m\<rparr> else st"
  have adv: "advance w u fo st a = ?st1\<lparr>lastError := Some (insufficient_content (length ?c))\<rparr>"
    using Inr by (simp add: advance_def attempt_page_def attempt_error_def keep_best_def)
  have nxt: "scrape_loop w u fo (Suc a) s = (after_loop u s, [])" for s
    using assms(1) by (subst scrape_loop.simps) simp
  show ?thesis
    using assms(1) Inr small unfolding adv
    by (subst scrape_loop.simps) (auto simp: try_attempt_def Let_def nxt after_loop_def)
qed

lemma backoff_trace_same: "backoff_trace k k = [Request k]"
  by (simp add: backoff_trace_def)

lemma backoff_trace_step:
  "a < k \<Longrightarrow> backoff_trace a k = Request a # Sleep (backoff_delay a) # backoff_trace (Suc a) k"
  by (simp add: backoff_trace_def upt_conv_Cons)

lemma loop_sufficient:
  assumes "a \<le> k" "int k \<le> retries_of fo"
      and "\<forall>j. a \<le> j \<and> j < k \<longrightarrow> \<not> sufficient w u fo j"
      and "attempt_page w u fo k = Some (c, m)" "length c \<ge> 100"
  shows "scrape_loop w u fo a st = (Resolved (ok_result c m), backoff_trace a k)"
  using assms(1,3)
proof (induction "k - a" arbitrary: a st)
  case 0
  then have "a = k" by simp
  then show ?case
    using loop_sufficient_now [OF assms(2) assms(4) assms(5)] by (simp add: backoff_trace_same)
next
  case (Suc n)
  then have lt: "a < k" by simp
  with assms(2) have more: "int a < retries_of fo" by simp
  from Suc.prems(2) lt have insuf: "\<not> sufficient w u fo a" by simp
  have rec: "scrape_loop w u fo (Suc a) (advance w u fo st a) =
               (Resolved (ok_result c m), backoff_trace (Suc a) k)"
    using Suc.hyps(2) lt Suc.prems(2) by (intro Suc.hyps(1)) auto
  show ?case
    by (simp add: loop_insufficient_more [OF more insuf] rec backoff_trace_step [OF lt])
qed

lemma loop_exhausted:
  assumes "a \<le> n" "int n = retries_of fo"
      and "\<forall>j. a \<le> j \<and> j \<le> n \<longrightarrow> \<not> sufficient w u fo j"
  shows "scrape_loop w u fo a st =
           (after_loop u (foldl (advance w u fo) st [a..<Suc n]), backoff_trace a n)"
  using assms(1,3)
proof (induction "n - a" arbitrary: a st)
  case 0
  then have "a = n" by simp
  then show ?case
    using loop_insufficient_last [of n fo w u st] assms(2) "0.prems"(2)
    by (simp add: backoff_trace_same)
next
  case (Suc d)
  then have lt: "a < n" by simp
  with assms(2) have more: "int a < retries_of fo" by simp
  from Suc.prems(2) lt have insuf: "\<not> sufficient w u fo a" by simp
  have rec: "scrape_loop w u fo (Suc a) (advance w u fo st a) =
               (after_loop u (foldl (advance w u fo) (advance w u fo st a) [Suc a..<Suc n]),
                backoff_trace (Suc a) n)"
    using Suc.hyps(2) lt Suc.prems(2) by (intro Suc.hyps(1)) auto
  have upt: "[a..<Suc n] = a # [Suc a..<Suc n]"
    using lt by (simp add: upt_conv_Cons)
  show ?case
    by (simp only: loop_insufficient_more [OF more insuf] rec backoff_trace_step [OF lt] upt
          foldl_Cons fst_conv snd_conv)
qed

lemma loop_not_entered:
  "\<not> int a \<le> retries_of fo \<Longrightarrow> scrape_loop w u fo a st = (after_loop u st, [])"
  by (subst scrape_loop.simps) simp

lemma foldl_advance_best:
  "(bestContent (foldl (advance w u fo) st js), bestMetadata (foldl (advance w u fo) st js)) =
     foldl keep_best (bestContent st, bestMetadata st) (map (attempt_page w u fo) js)"
  by (induction js arbitrary: st) (simp_all add: advance_def Let_def)

lemma foldl_advance_lastError:
  "lastError (foldl (advance w u fo) st (js @ [j])) = Some (attempt_error w u fo j)"
  by (simp add: advance_def Let_def)

lemma exhausted_state:
  assumes "1 \<le> n"
  shows "foldl (advance w u fo) st [1..<Suc n] =
           \<lparr> lastError = Some (attempt_error w u fo n),
             bestContent = fst (foldl keep_best (bestContent st, bestMetadata st)
                                  (map (attempt_page w u fo) [1..<Suc n])),
             bestMetadata = snd (foldl keep_best (bestContent st, bestMetadata st)
                                  (map (attempt_page w u fo) [1..<Suc n])) \<rparr>"
proof (rule loop_state_eqI)
  have "[1..<Suc n] = [1..<n] @ [n]" using assms by simp
  then show "lastError (foldl (advance w u fo) st [1..<Suc n]) = lastError \<lparr> lastError = Some (attempt_error w u fo n),
             bestContent = fst (foldl keep_best (bestContent st, bestMetadata st)
                                  (map (attempt_page w u fo) [1..<Suc n])),
             bestMetadata = snd (foldl keep_best (bestContent st, bestMetadata st)
                                  (map (attempt_page w u fo) [1..<Suc n])) \<rparr>"
    using foldl_advance_lastError [of w u fo st "[1..<n]" n] by simp
next
  show "bestContent (foldl (advance w u fo) st [1..<Suc n]) = bestContent \<lparr> lastError = Some (attempt_error w u fo n),
             bestContent = fst (foldl keep_best (bestContent st, bestMetadata st)
                                  (map (attempt_page w u fo) [1..<Suc n])),
             bestMetadata = snd (foldl keep_best (bestContent st, bestMetadata st)
                                  (map (attempt_page w u fo) [1..<Suc n])) \<rparr>"
    using foldl_advance_best [of w u fo st "[1..<Suc n]"] by (simp add: prod_eq_iff)
next
  show "bestMetadata (foldl (advance w u fo) st [1..<Suc n]) = bestMetadata \<lparr> lastError = Some (attempt_error w u fo n),
             bestContent = fst (foldl keep_best (bestContent st, bestMetadata st)
                                  (map (attempt_page w u fo) [1..<Suc n])),
             bestMetadata = snd (foldl keep_best (bestContent st, bestMetadata st)
                                  (map (attempt_page w u fo) [1..<Suc n])) \<rparr>"
    using foldl_advance_best [of w u fo st "[1..<Suc n]"] by (simp add: prod_eq_iff)
qed

lemma keep_best_first_longest:
  assumes "fst b0 = []"
  shows "(foldl keep_best b0 pages = b0 \<and>
            (\<forall>j<length pages. \<forall>p. pages ! j = Some p \<longrightarrow> fst p = [])) \<or>
         (\<exists>i<length pages. pages ! i = Some (foldl keep_best b0 pages) \<and>
            fst (foldl keep_best b0 pages) \<noteq> [] \<and>
            (\<forall>j<i. \<forall>p. pages ! j = Some p \<longrightarrow>
                length (fst p) < length (fst (foldl keep_best b0 pages))) \<and>
            (\<forall>j<length pages. \<forall>p. pages ! j = Some p \<longrightarrow>
                length (fst p) \<le> length (fst (foldl keep_best b0 pages))))"
proof -
  let ?m = "\<lambda>page. case page of None \<Rightarrow> 0 | Some (q :: jsstring \<times> Metadata) \<Rightarrow> length (fst q)"
  let ?mb = "\<lambda>b :: jsstring \<times> Metadata. length (fst b)"
  let ?inj = "\<lambda>page. case page of None \<Rightarrow> ([], snd b0) | Some (q :: jsstring \<times> Metadata) \<Rightarrow> q"
  let ?B = "foldl keep_best b0 pages"
  have step: "keep_best b x = (if ?m x > ?mb b then ?inj x else b)" for b x
    by (simp add: keep_best_def split: option.splits)
  have inj: "?mb (?inj x) = ?m x" for x
    by (simp split: option.splits)
  from foldl_first_longest [where step = keep_best and m = ?m and mb = ?mb and inj = ?inj
      and ?b0.0 = b0 and xs = pages, OF step inj]
  consider (same) "?B = b0" "\<forall>j<length pages. ?m (pages ! j) \<le> ?mb b0"
    | (found) i where "i < length pages" "?B = ?inj (pages ! i)" "?mb b0 < ?m (pages ! i)"
        "\<forall>j<i. ?m (pages ! j) < ?m (pages ! i)" "\<forall>j<length pages. ?m (pages ! j) \<le> ?m (pages ! i)"
    by blast
  then show ?thesis
  proof cases
    case same
    have "fst p = []" if "j < length pages" "pages ! j = Some p" for j p
      using same(2) that assms by (auto dest!: spec [of _ j])
    with same(1) show ?thesis by blast
  next
    case found
    from found(3) obtain q where q: "pages ! i = Some q" by (cases "pages ! i") auto
    with found(2) have B: "?B = q" by simp
    have m_i: "?m (pages ! i) = length (fst ?B)" using q B by simp
    have nonempty: "fst ?B \<noteq> []" using found(3) m_i by auto
    have before: "length (fst p) < length (fst ?B)" if "j < i" "pages ! j = Some p" for j p
      using found(4) that m_i by (auto dest!: spec [of _ j])
    have all: "length (fst p) \<le> length (fst ?B)" if "j < length pages" "pages ! j = Some p" for j p
      using found(5) that m_i by (auto dest!: spec [of _ j])
    from found(1) q B nonempty before all show ?thesis by blast
  qed
qed

lemma try_attempt_Return_success: "try_attempt w u fo a st = (Return r, st') \<Longrightarrow> success r"
  by (auto simp: try_attempt_def Let_def split: sum.splits if_splits)

lemma after_loop_failure:
  "after_loop u st = Resolved r \<Longrightarrow> \<not> success r \<Longrightarrow>
     metadata r = Some \<lparr> title = None, description = None, url = u \<rparr>"
  by (auto simp: after_loop_def split: if_splits option.splits)

lemma loop_failure_metadata:
  "fst (scrape_loop w u fo a st) = Resolved r \<Longrightarrow> \<not> success r \<Longrightarrow>
     metadata r = Some \<lparr> title = None, description = None, url = u \<rparr>"
proof (induction w u fo a st rule: scrape_loop.induct)
  case (1 w u fo a st)
  show ?case
  proof (cases "int a \<le> retries_of fo")
    case False
    with "1.prems" show ?thesis
      by (auto simp: loop_not_entered dest: after_loop_failure)
  next
    case True
    obtain cpl st' where t: "try_attempt w u fo a st = (cpl, st')" by (cases "try_attempt w u fo a st")
    show ?thesis
    proof (cases cpl)
      case (Return r')
      with t True "1.prems" have "r' = r"
        by (subst (asm) scrape_loop.simps) simp
      with t Return "1.prems"(2) show ?thesis
        using try_attempt_Return_success by blast
    next
      case (Throw e)
      have "fst (scrape_loop w u fo (Suc a) (st'\<lparr>lastError := Some e\<rparr>)) = Resolved r"
        using t True Throw "1.prems"(1)
        by (subst (asm) scrape_loop.simps) (simp split: prod.splits)
      then show ?thesis
        using "1.IH" [OF True t [symmetric] Throw] "1.prems"(2) by simp
    qed
  qed
qed

lemma loop_resolves:
  "int a \<le> retries_of fo \<or> lastError st \<noteq> None \<Longrightarrow> fst (scrape_loop w u fo a st) \<noteq> Rejected"
proof (induction w u fo a st rule: scrape_loop.induct)
  case (1 w u fo a st)
  show ?case
  proof (cases "int a \<le> retries_of fo")
    case False
    with "1.prems" show ?thesis
      by (auto simp: loop_not_entered after_loop_def)
  next
    case True
    obtain cpl st' where t: "try_attempt w u fo a st = (cpl, st')" by (cases "try_attempt w u fo a st")
    show ?thesis
    proof (cases cpl)
      case (Return r')
      with t True show ?thesis
        by (subst scrape_loop.simps) simp
    next
      case (Throw e)
      have "fst (scrape_loop w u fo (Suc a) (st'\<lparr>lastError := Some e\<rparr>)) \<noteq> Rejected"
        using "1.IH" [OF True t [symmetric] Throw] by simp
      then show ?thesis
        using t True Throw
        by (subst scrape_loop.simps) (auto split: prod.splits)
    qed
  qed
qed

lemma retries_default: "retries_of (merge_options DEFAULT_OPTIONS no_options) = 3"
  by (simp add: retries_of_def merge_options_def DEFAULT_OPTIONS_def no_options_def)

lemma sample_index: "generateSampleContent u \<in> set samples"
proof -
  have "length samples = 3" by (simp add: samples_def)
  then have "nat \<bar>sint (url_hash u)\<bar> mod length samples < length samples" by simp
  then show ?thesis unfolding generateSampleContent_def by (rule nth_mem)
qed


section \<open>The example documents and environments\<close>

lemma extract_plain_page: "extractMainContent (plain_page b) = (cleanText b, plain_page b)"
  by (simp add: extractMainContent_def plain_page_def strip_noise_def NOISE_SELECTORS_def remove_def
        selector_cascade_def ARTICLE_SELECTORS_def query_def paragraph_content_def
        selection_text_def Let_def)

lemma metadata_plain_page:
  "page_metadata (plain_page b) u = \<lparr> title = Some [], description = Some [], url = u \<rparr>"
  by (simp add: page_metadata_def plain_page_def query_def selection_text_def first_text_def
        attr_def or_else_def opt_or_else_def cleanText_def trim_def Let_def)

lemma demo_valid: "isValidUrl (demo_env rs) (of_ascii ''http://blog'')"
  by (simp add: isValidUrl_def demo_env_def demo_protocol_def of_ascii_def)

lemma demo_invalid:
  "url_protocol (demo_env rs) (of_ascii ''ftp://x'') = Some (of_ascii ''ftp:'')"
  by (simp add: demo_env_def demo_protocol_def of_ascii_def)

lemma demo_load: "cheerio_load (demo_env rs) h = plain_page h"
  by (simp add: demo_env_def)

lemma demo_page:
  "attempt_page (demo_env rs) u fo n =
     (case rs n of Inl e \<Rightarrow> None
      | Inr b \<Rightarrow> Some (cleanText b, \<lparr> title = Some [], description = Some [], url = u \<rparr>))"
  by (simp add: attempt_page_def makeRequest_def demo_env_def extract_plain_page metadata_plain_page
        split: sum.splits)

lemma clean_long_text: "cleanText long_text = long_text"
proof (rule cleanText_no_space, rule ballI)
  fix c assume "c \<in> set long_text"
  then have "c = 0x61" unfolding long_text_def by (simp only: in_set_replicate)
  then show "\<not> is_space c" by (simp add: is_space_def)
qed

lemma best_effort_page:
  "attempt_page best_effort_env u fo n =
     Some (if n = 1 then of_ascii ''short''
           else if n = 2 then of_ascii ''a longer text'' else of_ascii ''tiny'',
           \<lparr> title = Some [], description = Some [], url = u \<rparr>)"
  by (simp add: best_effort_env_def demo_page)
     (simp add: cleanText_def trim_def of_ascii_def is_space_def is_newline_def)

lemma clean_article_text: "cleanText article_text = article_text"
proof (rule cleanText_no_space, rule ballI)
  fix c assume "c \<in> set article_text"
  then have "c = 0x61" unfolding article_text_def by (simp only: in_set_replicate)
  then show "\<not> is_space c" by (simp add: is_space_def)
qed

lemma length_article_text: "length article_text = 1001"
  unfolding article_text_def by (simp only: length_replicate)

lemma article_doc_stripped:
  "strip_noise article_doc =
     [Element ''html'' []
        [Element ''head'' [] [Element ''title'' [] [Text (of_ascii ''A post'')]],
         Element ''body'' []
           [Element ''div'' [(''class'', of_ascii ''content'')] [Text (of_ascii ''A teaser'')],
            Element ''article'' [] [Text article_text],
            Element ''p'' [] [Text (of_ascii ''A paragraph outside the article.'')]]]]"
proof -
  have cls: "split_ws [] (of_ascii ''content'') = [of_ascii ''content'']"
    by (simp add: of_ascii_def is_space_def)
  have neq: "of_ascii ''advertisement'' \<noteq> of_ascii ''content''" "of_ascii ''ads'' \<noteq> of_ascii ''content''"
     "of_ascii ''sidebar'' \<noteq> of_ascii ''content''" "of_ascii ''comments'' \<noteq> of_ascii ''content''"
     "of_ascii ''social-share'' \<noteq> of_ascii ''content''" "of_ascii ''related-posts'' \<noteq> of_ascii ''content''"
     "of_ascii ''navigation'' \<noteq> of_ascii ''content''" "of_ascii ''menu'' \<noteq> of_ascii ''content''"
     "of_ascii ''cookie-notice'' \<noteq> of_ascii ''content''" "of_ascii ''popup'' \<noteq> of_ascii ''content''"
    by (simp_all add: of_ascii_def)
  show ?thesis
    by (simp add: strip_noise_def NOISE_SELECTORS_def remove_def article_doc_def cls neq)
qed

lemma article_doc_best: "fst (selector_cascade (strip_noise article_doc)) = article_text"
proof -
  have teaser: "cleanText (of_ascii ''A teaser'') = of_ascii ''A teaser''"
    by (simp add: cleanText_def trim_def of_ascii_def is_space_def is_newline_def)
  have len: "length (of_ascii ''A teaser'') = 8"
    by (simp add: of_ascii_def)
  have cls: "split_ws [] (of_ascii ''content'') = [of_ascii ''content'']"
    by (simp add: of_ascii_def is_space_def)
  have sub: "contains (of_ascii ''content'') (of_ascii ''content'')"
       "\<not> contains (of_ascii ''post'') (of_ascii ''content'')"
       "\<not> contains (of_ascii ''article'') (of_ascii ''content'')"
       "\<not> contains (of_ascii ''blog'') (of_ascii ''content'')"
    by (simp_all add: of_ascii_def)
  have neq: "of_ascii ''blog-post-content'' \<noteq> of_ascii ''content''" "of_ascii ''post-content'' \<noteq> of_ascii ''content''" "of_ascii ''blog-content'' \<noteq> of_ascii ''content''" "of_ascii ''content-wrapper'' \<noteq> of_ascii ''content''" "of_ascii ''entry-content'' \<noteq> of_ascii ''content''" "of_ascii ''article-content'' \<noteq> of_ascii ''content''" "of_ascii ''post-body'' \<noteq> of_ascii ''content''" "of_ascii ''story-body'' \<noteq> of_ascii ''content''" "of_ascii ''article-body'' \<noteq> of_ascii ''content''" "of_ascii ''main-content'' \<noteq> of_ascii ''content''" "of_ascii ''blog-post'' \<noteq> of_ascii ''content''" "of_ascii ''post'' \<noteq> of_ascii ''content''" "of_ascii ''entry'' \<noteq> of_ascii ''content''"
    by (simp_all add: of_ascii_def)
  have ne: "article_text \<noteq> []"
    using length_article_text by auto
  show ?thesis
    unfolding article_doc_stripped
    by (simp add: selector_cascade_def ARTICLE_SELECTORS_def query_def consider_element_def
          cls sub neq ne teaser clean_article_text len length_article_text Let_def)
qed

section \<open>The hash of the URL and the sample texts\<close>

text \<open>
  The hash starts at 0 and takes each code unit \<open>c\<close> of the URL in turn as
  \<open>(a << 5) - a + c\<close>, that is \<open>31 * a + c\<close>, in 32 bits; masking with
  \<open>0xffffffff\<close> changes nothing.  The three sample texts are pairwise different.
\<close>

lemma url_hash_Nil: "url_hash [] = 0"
  by (simp add: url_hash_def)

lemma url_hash_snoc:
  "url_hash (u @ [c]) = (push_bit 5 (url_hash u) - url_hash u + ucast c) AND 0xffffffff"
  by (simp add: url_hash_def)

lemma mask32: "(x :: 32 word) AND 0xffffffff = x"
proof -
  have "(0xffffffff :: 32 word) = - 1" by simp
  then show ?thesis by (simp only: word_bw_comms word_and_max and.right_neutral) 
qed

lemma url_hash_snoc_31: "url_hash (u @ [c]) = 31 * url_hash u + ucast c"
  by (simp add: url_hash_snoc mask32 push_bit_eq_mult)

lemma samples_distinct: "distinct samples"
proof -
  have "hd (samples ! 0) = 0x41" "hd (samples ! 1) = 0x57" "hd (samples ! 2) = 0x53"
    by (simp_all add: samples_def of_ascii_def)
  then have "samples ! 0 \<noteq> samples ! 1" "samples ! 0 \<noteq> samples ! 2" "samples ! 1 \<noteq> samples ! 2"
    by auto
  moreover have "samples = [samples ! 0, samples ! 1, samples ! 2]"
    by (simp add: samples_def)
  ultimately show ?thesis by (metis distinct_length_2_or_more distinct_singleton)
qed

lemma sample_choice: "generateSampleContent u = samples ! (nat \<bar>sint (url_hash u)\<bar> mod 3)"
  by (simp add: generateSampleContent_def samples_def)

section \<open>Claims about content extraction\<close>

text \<open>
  Claim C6, as the code behaves.  A newline is white space, so the first replacement
  turns every run of newlines into one space and the second replacement finds nothing:
  the cleaned text of \<open>a\<close>, two newlines, \<open>b\<close> is \<open>a b\<close>, and no cleaned text contains a
  newline.  The claim's collapse of blank lines to one newline does not happen.
\<close>

theorem cleanText_flattens_newlines:
  "cleanText (of_ascii ''a'' @ [0x0A, 0x0A] @ of_ascii ''b'') = of_ascii ''a b'' \<and>
   0x0A \<notin> set (cleanText s)"
  using cleanText_example cleanText_no_newline [of s] by simp

text \<open>
  Claim C4.  On the document left by noise removal, let \<open>cands\<close> be the cleaned texts of
  all matches of all article selectors, in the order the cascade visits them.  The
  cascade's result is at least as long as every candidate; unless it is empty it is a
  candidate, the first of its length (every earlier candidate is strictly shorter); and
  when it is longer than 1000 characters, \<open>extractMainContent\<close> returns it as it is,
  whatever the paragraphs and the body hold.
\<close>

theorem selector_cascade_keeps_first_longest:
  assumes "d = strip_noise d0"
      and "cands = concat (map (\<lambda>s. map (\<lambda>e. cleanText (text_of e)) (query s d)) ARTICLE_SELECTORS)"
      and "best = fst (selector_cascade d)"
  shows "snd (selector_cascade d) = length best \<and>
         (\<forall>j<length cands. length (cands ! j) \<le> length best) \<and>
         (best = [] \<or> (\<exists>i<length cands. cands ! i = best \<and> (\<forall>j<i. length (cands ! j) < length best))) \<and>
         (length best > 1000 \<longrightarrow> extractMainContent d0 = (best, d))"
proof -
  define es where "es = concat (map (\<lambda>s. query s d) ARTICLE_SELECTORS)"
  have cascade: "selector_cascade d = foldl consider_element ([], 0) es"
    by (simp add: selector_cascade_def es_def foldl_concat_map)
  have cands: "cands = map (\<lambda>e. cleanText (text_of e)) es"
    by (simp add: assms(2) es_def map_concat comp_def)
  have len: "length cands = length es" by (simp add: cands)
  have nth: "cands ! j = cleanText (text_of (es ! j))" if "j < length es" for j
    using that by (simp add: cands)
  have immediate: "extractMainContent d0 = (best, d)" if "length best > 1000"
    using that assms(1,3) by (simp add: extractMainContent_def Let_def)
  from cascade_first_longest [of es]
  consider (none) "selector_cascade d = ([], 0)"
      "\<forall>j<length es. length (cleanText (text_of (es ! j))) = 0"
    | (found) i where "i < length es"
      "selector_cascade d = (cleanText (text_of (es ! i)), length (cleanText (text_of (es ! i))))"
      "\<forall>j<i. length (cleanText (text_of (es ! j))) < length (cleanText (text_of (es ! i)))"
      "\<forall>j<length es. length (cleanText (text_of (es ! j))) \<le> length (cleanText (text_of (es ! i)))"
    unfolding cascade by blast
  then show ?thesis
  proof cases
    case none
    then have "best = []" "snd (selector_cascade d) = length best"
      by (simp_all add: assms(3))
    moreover have "\<forall>j<length cands. length (cands ! j) \<le> length best"
      using none(2) by (simp add: len nth)
    ultimately show ?thesis using immediate by simp
  next
    case found
    from found(2) have best: "best = cands ! i" "snd (selector_cascade d) = length best"
      using found(1) by (simp_all add: assms(3) nth)
    have all: "\<forall>j<length cands. length (cands ! j) \<le> length best"
      using found(1,4) by (simp add: len nth best(1))
    have first: "\<forall>j<i. length (cands ! j) < length best"
      using found(1,3) by (simp add: nth best(1))
    from found(1) best first have "\<exists>i<length cands. cands ! i = best \<and> (\<forall>j<i. length (cands ! j) < length best)"
      unfolding len by blast
    with best(2) all immediate show ?thesis by blast
  qed
qed

theorem selector_cascade_keeps_first_longest_witness:
  "extractMainContent article_doc = (article_text, strip_noise article_doc) \<and>
   length article_text > 1000"
proof -
  have big: "length article_text > 1000" by (simp add: length_article_text)
  note imp = selector_cascade_keeps_first_longest [OF refl refl article_doc_best [symmetric],
      THEN conjunct2, THEN conjunct2, THEN conjunct2]
  from imp [rule_format, OF big] big show ?thesis by (rule conjI)
qed

text \<open>
  Claim C5, as the code behaves.  On a page whose only content is three paragraphs of
  more than 20 characters each (no selector matches), the paragraphs are joined by
  single spaces, not by blank lines: the blank lines appended after each paragraph are
  white space for \<open>cleanText\<close>.  No result of \<open>extractMainContent\<close> contains a newline.
\<close>

theorem paragraph_fallback_joins_with_spaces:
  "fst (selector_cascade (strip_noise paragraph_doc)) = [] \<and>
   map (\<lambda>p. trim (text_of p)) (query (Tag ''p'') (strip_noise paragraph_doc)) =
     [of_ascii ''The first paragraph of the page.'',
      of_ascii ''The second paragraph of the page.'',
      of_ascii ''The third paragraph of the page.''] \<and>
   fst (extractMainContent paragraph_doc) =
     of_ascii ''The first paragraph of the page. The second paragraph of the page. The third paragraph of the page.'' \<and>
   0x0A \<notin> set (fst (extractMainContent d))"
proof -
  have "fst (selector_cascade (strip_noise paragraph_doc)) = []"
    by code_simp
  moreover have "map (\<lambda>p. trim (text_of p)) (query (Tag ''p'') (strip_noise paragraph_doc)) =
     [of_ascii ''The first paragraph of the page.'',
      of_ascii ''The second paragraph of the page.'',
      of_ascii ''The third paragraph of the page.'']"
    by code_simp
  moreover have "fst (extractMainContent paragraph_doc) =
     of_ascii ''The first paragraph of the page. The second paragraph of the page. The third paragraph of the page.''"
    by code_simp
  ultimately show ?thesis using extract_no_newline [of d] by simp
qed

text \<open>
  Claim C9.  Running \<open>extractMainContent\<close> again on the document the first run left
  behind (noise removed) gives the same text and leaves the same document; the function
  is deterministic, so a second run on an equal document gives the same text too.
\<close>

theorem extraction_idempotent:
  "extractMainContent (snd (extractMainContent d)) = extractMainContent d"
  unfolding extract_leaves_stripped
  by (simp add: extractMainContent_def strip_noise_idem)

section \<open>Claims about the retry orchestrator\<close>

text \<open>
  Claim C1.  A URL that is empty, or that does not parse as an absolute URL with scheme
  http or https, makes \<open>scrapeBlogText\<close> return the validation failure at once: the
  result is the failure \<open>Invalid URL provided\<close> and the call performs no event at all,
  neither a request nor a backoff sleep.
\<close>

theorem scrape_rejects_invalid_url:
  assumes "u = [] \<or> (url_protocol w u \<noteq> Some (of_ascii ''http:'') \<and>
                      url_protocol w u \<noteq> Some (of_ascii ''https:''))"
  shows "scrapeBlogText w u options =
           (Resolved \<lparr> success = False, content = None,
                       error = Some (of_ascii ''Invalid URL provided''), metadata = None \<rparr>, [])"
  using assms by (auto simp: scrapeBlogText_def isValidUrl_def split: option.splits)

theorem scrape_rejects_invalid_url_witness:
  "url_protocol (demo_env (\<lambda>n. Inl timed_out)) (of_ascii ''ftp://x'') \<noteq> Some (of_ascii ''http:'') \<and>
   url_protocol (demo_env (\<lambda>n. Inl timed_out)) (of_ascii ''ftp://x'') \<noteq> Some (of_ascii ''https:'') \<and>
   scrapeBlogText (demo_env (\<lambda>n. Inl timed_out)) (of_ascii ''ftp://x'') no_options =
     (Resolved \<lparr> success = False, content = None,
                 error = Some (of_ascii ''Invalid URL provided''), metadata = None \<rparr>, [])"
proof -
  have h: "url_protocol (demo_env (\<lambda>n. Inl timed_out)) (of_ascii ''ftp://x'') \<noteq> Some (of_ascii ''http:'') \<and>
           url_protocol (demo_env (\<lambda>n. Inl timed_out)) (of_ascii ''ftp://x'') \<noteq> Some (of_ascii ''https:'')"
    by (simp add: demo_invalid) (simp add: of_ascii_def)
  show ?thesis
    using h scrape_rejects_invalid_url [OF disjI2 [OF h], of no_options] by simp
qed

text \<open>
  Claim C2.  Let the URL be valid and let attempt \<open>k\<close> be one the loop reaches: every
  earlier attempt failed to fetch or extracted fewer than 100 characters.  If the fetch of
  attempt \<open>k\<close> succeeds and the content extracted from it has at least 100 characters,
  the call returns success with exactly that content and that attempt's metadata, and
  its last event is the request of attempt \<open>k\<close>: no later attempt is made.
\<close>

theorem scrape_returns_first_sufficient_attempt:
  assumes "u \<noteq> []" "isValidUrl w u"
      and "fo = merge_options DEFAULT_OPTIONS options"
      and "1 \<le> k" "int k \<le> retries_of fo"
      and "\<forall>j. 1 \<le> j \<and> j < k \<longrightarrow> \<not> sufficient w u fo j"
      and "makeRequest w u fo k = Inr html"
      and "length (fst (extractMainContent (cheerio_load w html))) \<ge> 100"
  shows "scrapeBlogText w u options =
           (Resolved \<lparr> success = True,
                       content = Some (fst (extractMainContent (cheerio_load w html))),
                       error = None,
                       metadata = Some (page_metadata (cheerio_load w html) u) \<rparr>,
            concat (map (\<lambda>j. [Request j, Sleep (min (1000 * 2 ^ (j - 1)) 5000)]) [1..<k]) @ [Request k])"
proof -
  have page: "attempt_page w u fo k =
                Some (fst (extractMainContent (cheerio_load w html)), page_metadata (cheerio_load w html) u)"
    using assms(7) by (simp add: attempt_page_def)
  have "scrape_loop w u fo 1 st =
          (Resolved (ok_result (fst (extractMainContent (cheerio_load w html)))
                       (page_metadata (cheerio_load w html) u)), backoff_trace 1 k)" for st
    using loop_sufficient [OF _ assms(5) _ page assms(8), of 1 st] assms(4,6) by simp
  then show ?thesis
    using assms(1,2,3)
    by (simp add: scrapeBlogText_def ok_result_def backoff_trace_def backoff_delay_def)
qed

theorem scrape_returns_first_sufficient_attempt_witness:
  "scrapeBlogText (demo_env (\<lambda>n. if n = 1 then Inl timed_out else Inr long_text))
     (of_ascii ''http://blog'') no_options =
     (Resolved \<lparr> success = True, content = Some long_text, error = None,
                 metadata = Some \<lparr> title = Some [], description = Some [],
                                   url = of_ascii ''http://blog'' \<rparr> \<rparr>,
      [Request 1, Sleep 1000, Request 2])"
proof -
  let ?w = "demo_env (\<lambda>n. if n = 1 then Inl timed_out else Inr long_text)"
  let ?u = "of_ascii ''http://blog''"
  let ?fo = "merge_options DEFAULT_OPTIONS no_options"
  have h1: "?u \<noteq> []" by (simp add: of_ascii_def)
  have h4: "(1::nat) \<le> 2" by simp
  have h5: "int 2 \<le> retries_of ?fo" by (simp add: retries_default)
  have h6: "\<forall>j. 1 \<le> j \<and> j < 2 \<longrightarrow> \<not> sufficient ?w ?u ?fo j"
    by (auto simp: sufficient_def demo_page)
  have h7: "makeRequest ?w ?u ?fo 2 = Inr long_text"
    by (simp add: makeRequest_def demo_env_def)
  have page: "fst (extractMainContent (cheerio_load ?w long_text)) = long_text"
    by (simp add: demo_load extract_plain_page clean_long_text)
  have h8: "length (fst (extractMainContent (cheerio_load ?w long_text))) \<ge> 100"
    unfolding page by (simp add: long_text_def)
  have upt: "[Suc 0..<2] = [Suc 0]" by (simp add: upt_rec)
  show ?thesis
    using scrape_returns_first_sufficient_attempt [OF h1 demo_valid refl h4 h5 h6 h7 h8]
    by (simp add: demo_load extract_plain_page metadata_plain_page clean_long_text upt)
qed

text \<open>
  Claim C3.  Let the URL be valid and let no attempt extract 100 characters or more.  Then
  either some attempt \<open>k\<close> extracted non-empty content, and the call returns success with
  the content and metadata of the attempt whose content is longest, the earliest such
  attempt (every earlier attempt is strictly shorter, no attempt is longer); or no attempt
  extracted any content, and the call returns the failure whose message is
  \<open>getErrorMessage\<close> of the error of the last attempt, with metadata holding only the
  URL.  (With a retry count below 1 there is no attempt and no last error: reading
  \<open>lastError.code\<close> throws and the promise rejects.)  So a failure is returned only when
  no attempt produced content.
\<close>

theorem scrape_exhausted_best_effort:
  assumes "u \<noteq> []" "isValidUrl w u"
      and "fo = merge_options DEFAULT_OPTIONS options"
      and "\<forall>j. 1 \<le> j \<and> int j \<le> retries_of fo \<longrightarrow> \<not> sufficient w u fo j"
  shows "(\<exists>k c m. 1 \<le> k \<and> int k \<le> retries_of fo \<and> attempt_page w u fo k = Some (c, m) \<and> c \<noteq> [] \<and>
            fst (scrapeBlogText w u options) =
              Resolved \<lparr> success = True, content = Some c, error = None, metadata = Some m \<rparr> \<and>
            (\<forall>j p. 1 \<le> j \<and> j < k \<and> attempt_page w u fo j = Some p \<longrightarrow> length (fst p) < length c) \<and>
            (\<forall>j p. 1 \<le> j \<and> int j \<le> retries_of fo \<and> attempt_page w u fo j = Some p \<longrightarrow>
                length (fst p) \<le> length c))
         \<or> ((\<forall>j p. 1 \<le> j \<and> int j \<le> retries_of fo \<and> attempt_page w u fo j = Some p \<longrightarrow> fst p = []) \<and>
             fst (scrapeBlogText w u options) =
               (if 1 \<le> retries_of fo
                then Resolved \<lparr> success = False, content = None,
                       error = Some (getErrorMessage (attempt_error w u fo (nat (retries_of fo)))),
                       metadata = Some \<lparr> title = None, description = None, url = u \<rparr> \<rparr>
                else Rejected))"
proof -
  let ?st0 = "\<lparr> lastError = None, bestContent = [],
               bestMetadata = \<lparr> title = None, description = None, url = u \<rparr> \<rparr>"
  have run: "scrapeBlogText w u options = scrape_loop w u fo 1 ?st0"
    using assms(1,2,3) by (simp add: scrapeBlogText_def)
  show ?thesis
  proof (cases "1 \<le> retries_of fo")
    case False
    then have "fst (scrapeBlogText w u options) = Rejected"
      by (simp add: run loop_not_entered after_loop_def)
    moreover have "\<forall>j p. 1 \<le> j \<and> int j \<le> retries_of fo \<and> attempt_page w u fo j = Some p \<longrightarrow>
                     fst p = []"
      using False by auto
    ultimately show ?thesis using False by (intro disjI2) simp
  next
    case True
    define n where "n = nat (retries_of fo)"
    have n: "1 \<le> n" "int n = retries_of fo" using True by (simp_all add: n_def)
    have range: "int j \<le> retries_of fo \<longleftrightarrow> j \<le> n" for j using n(2) by auto
    define pages where "pages = map (attempt_page w u fo) [1..<Suc n]"
    define b0 where "b0 = ([] :: jsstring, \<lparr> title = None, description = None, url = u \<rparr>)"
    define B where "B = foldl keep_best b0 pages"
    have len: "length pages = n" by (simp add: pages_def)
    have nth: "pages ! (j - 1) = attempt_page w u fo j" if "1 \<le> j" "j \<le> n" for j
      using that by (simp add: pages_def nth_map less_Suc_eq_le del: upt_Suc)
    have "\<forall>j. 1 \<le> j \<and> j \<le> n \<longrightarrow> \<not> sufficient w u fo j"
      using assms(4) range by simp
    then have ex: "scrape_loop w u fo 1 ?st0 =
                     (after_loop u (foldl (advance w u fo) ?st0 [1..<Suc n]), backoff_trace 1 n)"
      by (rule loop_exhausted [OF n(1) n(2)])
    have res: "fst (scrapeBlogText w u options) =
                 after_loop u \<lparr> lastError = Some (attempt_error w u fo n),
                                bestContent = fst B, bestMetadata = snd B \<rparr>"
      unfolding run ex fst_conv exhausted_state [OF n(1)] B_def b0_def pages_def by simp
    have "fst b0 = []" by (simp add: b0_def)
    from keep_best_first_longest [OF this, of pages]
    consider (same) "B = b0" "\<forall>j<n. \<forall>p. pages ! j = Some p \<longrightarrow> fst p = []"
      | (found) i where "i < n" "pages ! i = Some B" "fst B \<noteq> []"
          "\<forall>j<i. \<forall>p. pages ! j = Some p \<longrightarrow> length (fst p) < length (fst B)"
          "\<forall>j<n. \<forall>p. pages ! j = Some p \<longrightarrow> length (fst p) \<le> length (fst B)"
      unfolding len B_def by auto
    then show ?thesis
    proof cases
      case same
      have empty: "fst p = []" if "1 \<le> j" "j \<le> n" "attempt_page w u fo j = Some p" for j p
      proof -
        from that have "j - 1 < n" by auto
        with same(2) nth [OF that(1,2)] that(3) show ?thesis by metis
      qed
      have "fst (scrapeBlogText w u options) =
              Resolved \<lparr> success = False, content = None,
                         error = Some (getErrorMessage (attempt_error w u fo n)),
                         metadata = Some \<lparr> title = None, description = None, url = u \<rparr> \<rparr>"
        unfolding res same(1) by (simp add: after_loop_def b0_def)
      with empty True show ?thesis
        unfolding range n_def [symmetric] by auto
    next
      case found
      let ?k = "Suc i"
      have k: "1 \<le> ?k" "?k \<le> n" using found(1) by auto
      have page: "attempt_page w u fo ?k = Some (fst B, snd B)"
        using found(2) nth [OF k] by simp
      have ok: "fst (scrapeBlogText w u options) =
              Resolved \<lparr> success = True, content = Some (fst B), error = None,
                         metadata = Some (snd B) \<rparr>"
        unfolding res using found(3) by (simp add: after_loop_def)
      have before: "length (fst p) < length (fst B)"
        if "1 \<le> j" "j < ?k" "attempt_page w u fo j = Some p" for j p
      proof -
        from that found(1) have "j - 1 < i" "j \<le> n" by auto
        with found(4) nth [of j] that(1,3) show ?thesis by metis
      qed
      have all: "length (fst p) \<le> length (fst B)"
        if "1 \<le> j" "j \<le> n" "attempt_page w u fo j = Some p" for j p
      proof -
        from that have "j - 1 < n" by auto
        with found(5) nth [OF that(1,2)] that(3) show ?thesis by metis
      qed
      have "\<exists>k c m. 1 \<le> k \<and> k \<le> n \<and> attempt_page w u fo k = Some (c, m) \<and> c \<noteq> [] \<and>
            fst (scrapeBlogText w u options) =
              Resolved \<lparr> success = True, content = Some c, error = None, metadata = Some m \<rparr> \<and>
            (\<forall>j p. 1 \<le> j \<and> j < k \<and> attempt_page w u fo j = Some p \<longrightarrow> length (fst p) < length c) \<and>
            (\<forall>j p. 1 \<le> j \<and> j \<le> n \<and> attempt_page w u fo j = Some p \<longrightarrow>
                length (fst p) \<le> length c)"
        using k page found(3) ok before all by blast
      then show ?thesis unfolding range by blast
    qed
  qed
qed

theorem scrape_exhausted_best_effort_witness:
  "fst (scrapeBlogText best_effort_env (of_ascii ''http://blog'') no_options) =
     Resolved \<lparr> success = True, content = Some (of_ascii ''a longer text''), error = None,
                metadata = Some \<lparr> title = Some [], description = Some [],
                                  url = of_ascii ''http://blog'' \<rparr> \<rparr>"
proof -
  let ?w = best_effort_env
  let ?u = "of_ascii ''http://blog''"
  let ?fo = "merge_options DEFAULT_OPTIONS no_options"
  let ?goal = "fst (scrapeBlogText ?w ?u no_options) =
     Resolved \<lparr> success = True, content = Some (of_ascii ''a longer text''), error = None,
                metadata = Some \<lparr> title = Some [], description = Some [], url = ?u \<rparr> \<rparr>"
  have h1: "?u \<noteq> []" by (simp add: of_ascii_def)
  have h2: "isValidUrl ?w ?u" unfolding best_effort_env_def by (rule demo_valid)
  have h4: "\<forall>j. 1 \<le> j \<and> int j \<le> retries_of ?fo \<longrightarrow> \<not> sufficient ?w ?u ?fo j"
    by (simp add: sufficient_def best_effort_page of_ascii_def)
  have len: "length (of_ascii ''short'') = 5" "length (of_ascii ''a longer text'') = 13"
    "length (of_ascii ''tiny'') = 4"
    by (simp_all add: of_ascii_def)
  from scrape_exhausted_best_effort [OF h1 h2 refl h4] show ?thesis
  proof (elim disjE exE conjE)
    fix k c m
    assume page: "attempt_page ?w ?u ?fo k = Some (c, m)"
      and res: "fst (scrapeBlogText ?w ?u no_options) =
                  Resolved \<lparr> success = True, content = Some c, error = None, metadata = Some m \<rparr>"
      and all: "\<forall>j p. 1 \<le> j \<and> int j \<le> retries_of ?fo \<and> attempt_page ?w ?u ?fo j = Some p \<longrightarrow>
                  length (fst p) \<le> length c"
    have "attempt_page ?w ?u ?fo 2 =
            Some (of_ascii ''a longer text'', \<lparr> title = Some [], description = Some [], url = ?u \<rparr>)"
      by (simp add: best_effort_page)
    with all have "13 \<le> length c"
      by (auto simp: retries_default len dest!: spec [of _ 2])
    with page have "c = of_ascii ''a longer text'' \<and>
                    m = \<lparr> title = Some [], description = Some [], url = ?u \<rparr>"
      by (auto simp: best_effort_page len split: if_splits)
    with res show ?goal by simp
  next
    assume "\<forall>j p. 1 \<le> j \<and> int j \<le> retries_of ?fo \<and> attempt_page ?w ?u ?fo j = Some p \<longrightarrow> fst p = []"
    then have "of_ascii ''short'' = ([] :: jsstring)"
      by (auto simp: retries_default best_effort_page dest!: spec [of _ 1])
    then show ?goal by (simp add: of_ascii_def)
  qed
qed

text \<open>
  Claim C7, as the code has it.  The failure returned for an invalid URL carries no
  metadata at all; every other failure result carries metadata that holds exactly the
  input URL.
\<close>

theorem failure_metadata:
  assumes "scrapeBlogText w u options = (Resolved r, evs)" "\<not> success r"
  shows "metadata r =
           (if u = [] \<or> \<not> isValidUrl w u then None
            else Some \<lparr> title = None, description = None, url = u \<rparr>)"
proof (cases "u = [] \<or> \<not> isValidUrl w u")
  case True
  with assms(1) show ?thesis by (auto simp: scrapeBlogText_def)
next
  case False
  with assms(1) have "fst (scrape_loop w u (merge_options DEFAULT_OPTIONS options) 1
            \<lparr> lastError = None, bestContent = [],
              bestMetadata = \<lparr> title = None, description = None, url = u \<rparr> \<rparr>) = Resolved r"
    by (simp add: scrapeBlogText_def)
  from loop_failure_metadata [OF this assms(2)] False show ?thesis by simp
qed

theorem failure_metadata_witness:
  "isValidUrl offline_env (of_ascii ''http://blog'') \<and>
   (\<exists>r evs. scrapeBlogText offline_env (of_ascii ''http://blog'') no_options = (Resolved r, evs) \<and>
      \<not> success r \<and>
      metadata r = Some \<lparr> title = None, description = None, url = of_ascii ''http://blog'' \<rparr>)"
proof -
  let ?r = "\<lparr> success = False, content = None,
              error = Some (of_ascii ''Request timed out. Please try again.''),
              metadata = Some \<lparr> title = None, description = None, url = of_ascii ''http://blog'' \<rparr> \<rparr>"
  let ?evs = "[Request 1, Sleep 1000, Request 2, Sleep 2000, Request 3]"
  have valid: "isValidUrl offline_env (of_ascii ''http://blog'')"
    unfolding offline_env_def by (rule demo_valid)
  have nonempty: "of_ascii ''http://blog'' \<noteq> ([] :: jsstring)" by (simp add: of_ascii_def)
  have run: "scrapeBlogText offline_env (of_ascii ''http://blog'') no_options = (Resolved ?r, ?evs)"
    by code_simp
  have failed: "\<not> success ?r" by simp
  from failure_metadata [OF run failed] valid nonempty run show ?thesis
    by (intro conjI exI [of _ ?r] exI [of _ ?evs]) simp_all
qed

text \<open>
  Claim C7 as stated (metadata present on every failure, validation failure included)
  fails at the URL \<open>ftp://x\<close>: the result is a failure without metadata.
\<close>

theorem validation_failure_has_no_metadata:
  "fst (scrapeBlogText offline_env (of_ascii ''ftp://x'') no_options) =
     Resolved \<lparr> success = False, content = None,
                error = Some (of_ascii ''Invalid URL provided''), metadata = None \<rparr>"
  by (simp add: scrapeBlogText_def isValidUrl_def offline_env_def demo_invalid) (simp add: of_ascii_def)

text \<open>
  Claim C8.  For a valid URL the events of a call are the requests of attempts 1 to \<open>k\<close>
  in order, each request before the last followed by one sleep of
  \<open>min (1000 * 2 ^ (j - 1)) 5000\<close> milliseconds for its attempt number \<open>j\<close>, and nothing
  after the request of attempt \<open>k\<close>; here every attempt before \<open>k\<close> failed, and \<open>k\<close> is
  the attempt that extracted at least 100 characters or the last attempt allowed.  In
  particular, with 3 retries and failures on attempts 1 and 2 the sleeps are 1000 ms and
  2000 ms, and none follows attempt 3.
\<close>

theorem backoff_schedule:
  assumes "u \<noteq> []" "isValidUrl w u"
      and "fo = merge_options DEFAULT_OPTIONS options"
  shows "((retries_of fo < 1 \<and> snd (scrapeBlogText w u options) = []) \<or>
          (\<exists>k. 1 \<le> k \<and> int k \<le> retries_of fo \<and>
               (\<forall>j. 1 \<le> j \<and> j < k \<longrightarrow> \<not> sufficient w u fo j) \<and>
               (sufficient w u fo k \<or> int k = retries_of fo) \<and>
               snd (scrapeBlogText w u options) =
                 concat (map (\<lambda>j. [Request j, Sleep (min (1000 * 2 ^ (j - 1)) 5000)]) [1..<k])
                 @ [Request k])) \<and>
         (retries_of fo = 3 \<and> \<not> sufficient w u fo 1 \<and> \<not> sufficient w u fo 2 \<longrightarrow>
            snd (scrapeBlogText w u options) =
              [Request 1, Sleep 1000, Request 2, Sleep 2000, Request 3])"
proof -
  let ?st0 = "\<lparr> lastError = None, bestContent = [],
               bestMetadata = \<lparr> title = None, description = None, url = u \<rparr> \<rparr>"
  define tr where
    "tr k = concat (map (\<lambda>j. [Request j, Sleep (min (1000 * 2 ^ (j - 1)) 5000)]) [1..<k])
              @ [Request k]" for k
  define evs where "evs = snd (scrapeBlogText w u options)"
  have run: "scrapeBlogText w u options = scrape_loop w u fo 1 ?st0"
    using assms by (simp add: scrapeBlogText_def)
  have tr: "backoff_trace 1 k = tr k" for k
    by (simp add: backoff_trace_def backoff_delay_def tr_def)
  have shape: "(retries_of fo < 1 \<and> evs = []) \<or>
          (\<exists>k. 1 \<le> k \<and> int k \<le> retries_of fo \<and>
               (\<forall>j. 1 \<le> j \<and> j < k \<longrightarrow> \<not> sufficient w u fo j) \<and>
               (sufficient w u fo k \<or> int k = retries_of fo) \<and> evs = tr k)"
  proof (cases "1 \<le> retries_of fo")
    case False
    then show ?thesis by (simp add: evs_def run loop_not_entered)
  next
    case True
    define n where "n = nat (retries_of fo)"
    have n: "1 \<le> n" "int n = retries_of fo" using True by (simp_all add: n_def)
    define P where "P j \<longleftrightarrow> 1 \<le> j \<and> j \<le> n \<and> sufficient w u fo j" for j
    show ?thesis
    proof (cases "\<exists>j. P j")
      case True
      define k where "k = (LEAST j. P j)"
      from True have Pk: "P k" unfolding k_def by (auto intro: LeastI)
      have least: "\<not> P j" if "j < k" for j
        using that unfolding k_def by (rule not_less_Least)
      have k: "1 \<le> k" "int k \<le> retries_of fo" "sufficient w u fo k"
        using Pk n(2) by (auto simp: P_def)
      have earlier: "\<forall>j. 1 \<le> j \<and> j < k \<longrightarrow> \<not> sufficient w u fo j"
        using least k(2) n(2) by (auto simp: P_def)
      from k(3) obtain c m where page: "attempt_page w u fo k = Some (c, m)" "length c \<ge> 100"
        by (auto simp: sufficient_def split: option.splits)
      have "scrape_loop w u fo 1 ?st0 = (Resolved (ok_result c m), backoff_trace 1 k)"
        by (rule loop_sufficient [OF k(1) k(2) earlier page])
      then have "evs = tr k"
        by (simp only: evs_def run snd_conv tr)
      with k earlier show ?thesis by (intro disjI2 exI [of _ k]) simp
    next
      case False
      then have none: "\<forall>j. 1 \<le> j \<and> j \<le> n \<longrightarrow> \<not> sufficient w u fo j"
        by (simp add: P_def)
      then have "scrape_loop w u fo 1 ?st0 =
                   (after_loop u (foldl (advance w u fo) ?st0 [1..<Suc n]), backoff_trace 1 n)"
        by (rule loop_exhausted [OF n(1) n(2)])
      then have "evs = tr n"
        by (simp only: evs_def run snd_conv tr)
      moreover have "\<forall>j. 1 \<le> j \<and> j < n \<longrightarrow> \<not> sufficient w u fo j"
        using none by simp
      ultimately show ?thesis using n by (intro disjI2 exI [of _ n]) simp
    qed
  qed
  have three: "evs = [Request 1, Sleep 1000, Request 2, Sleep 2000, Request 3]"
    if R: "retries_of fo = 3" and f1: "\<not> sufficient w u fo 1" and f2: "\<not> sufficient w u fo 2"
  proof -
    from shape R obtain k where k: "1 \<le> k" "int k \<le> 3" "sufficient w u fo k \<or> int k = 3"
      "evs = tr k"
      by auto
    from k(1,2) have "k = 1 \<or> k = 2 \<or> k = 3" by auto
    with k(3) f1 f2 have "k = 3" by auto
    moreover have "tr 3 = [Request 1, Sleep 1000, Request 2, Sleep 2000, Request 3]"
      by (simp add: tr_def upt_rec)
    ultimately show ?thesis using k(4) by simp
  qed
  from shape three show ?thesis
    unfolding evs_def tr_def by blast
qed

theorem backoff_schedule_witness:
  "snd (scrapeBlogText flaky_env (of_ascii ''http://blog'') no_options) =
     [Request 1, Sleep 1000, Request 2, Sleep 2000, Request 3]"
proof -
  let ?u = "of_ascii ''http://blog''"
  let ?fo = "merge_options DEFAULT_OPTIONS no_options"
  have h1: "?u \<noteq> []" by (simp add: of_ascii_def)
  have h2: "isValidUrl flaky_env ?u" unfolding flaky_env_def by (rule demo_valid)
  have fails: "\<not> sufficient flaky_env ?u ?fo 1" "\<not> sufficient flaky_env ?u ?fo 2"
    by (simp_all add: sufficient_def flaky_env_def demo_page)
  from backoff_schedule [OF h1 h2 refl] fails show ?thesis
    by (simp add: retries_default)
qed

section \<open>Claims about the fallback scraper\<close>

text \<open>
  Claim C10.  \<open>scrapeWithFallback\<close> always resolves with a successful result: the call
  of \<open>scrapeBlogText\<close> with the default options always resolves, its result is passed on
  when it is a success, and otherwise (also for an invalid URL) the result is a success
  whose content is \<open>generateSampleContent u\<close>.  That content is the sample text at index
  \<open>|h| mod 3\<close> of the three pairwise different sample texts, where \<open>h\<close> is the hash of
  the URL read as a signed 32-bit integer: the hash of the empty string is 0 and a
  further code unit \<open>c\<close> takes a hash \<open>a\<close> to \<open>((a << 5) - a + c) & 0xffffffff\<close>, which is
  \<open>31 * a + c\<close> in 32 bits.  The choice depends on the URL alone.
\<close>

theorem fallback_never_fails:
  "(\<exists>r0 evs r. scrapeBlogText w u no_options = (Resolved r0, evs) \<and>
     scrapeWithFallback w u = (Resolved r, evs) \<and> success r \<and>
     r = (if success r0 then r0
          else \<lparr> success = True, content = Some (generateSampleContent u), error = None,
                 metadata = Some \<lparr> title = Some (of_ascii ''Sample Blog Post''),
                   description = Some (of_ascii ''This is sample content for demonstration purposes.''),
                   url = u \<rparr> \<rparr>) \<and>
     generateSampleContent u \<in> set samples \<and> length samples = 3) \<and>
   generateSampleContent u = samples ! (nat \<bar>sint (url_hash u)\<bar> mod 3) \<and>
   url_hash [] = 0 \<and>
   url_hash (u @ [c]) = (push_bit 5 (url_hash u) - url_hash u + ucast c) AND 0xffffffff \<and>
   url_hash (u @ [c]) = 31 * url_hash u + ucast c \<and>
   distinct samples"
proof -
  obtain o1 evs where run: "scrapeBlogText w u no_options = (o1, evs)"
    by (cases "scrapeBlogText w u no_options")
  have "o1 \<noteq> Rejected"
  proof (cases "u = [] \<or> \<not> isValidUrl w u")
    case True
    with run show ?thesis by (auto simp: scrapeBlogText_def)
  next
    case False
    have "fst (scrape_loop w u (merge_options DEFAULT_OPTIONS no_options) 1 st) \<noteq> Rejected" for st
      by (rule loop_resolves) (simp add: retries_default)
    from this [of "\<lparr> lastError = None, bestContent = [],
              bestMetadata = \<lparr> title = None, description = None, url = u \<rparr> \<rparr>"] False run
    show ?thesis by (auto simp: scrapeBlogText_def)
  qed
  then obtain r0 where r0: "o1 = Resolved r0" by (cases o1) auto
  have len: "length samples = 3" by (simp add: samples_def)
  have resolves: "\<exists>r0 evs r. scrapeBlogText w u no_options = (Resolved r0, evs) \<and>
     scrapeWithFallback w u = (Resolved r, evs) \<and> success r \<and>
     r = (if success r0 then r0
          else \<lparr> success = True, content = Some (generateSampleContent u), error = None,
                 metadata = Some \<lparr> title = Some (of_ascii ''Sample Blog Post''),
                   description = Some (of_ascii ''This is sample content for demonstration purposes.''),
                   url = u \<rparr> \<rparr>) \<and>
     generateSampleContent u \<in> set samples \<and> length samples = 3"
    using run r0 sample_index [of u] len
    by (cases "success r0") (simp_all add: scrapeWithFallback_def)
  show ?thesis
    using resolves sample_choice [of u] url_hash_Nil url_hash_snoc [of u c]
      url_hash_snoc_31 [of u c] samples_distinct
    by (intro conjI)
qed

theorem fallback_never_fails_witness:
  "fst (scrapeWithFallback offline_env (of_ascii ''not a url'')) =
     Resolved \<lparr> success = True, content = Some (samples ! 1), error = None,
                metadata = Some \<lparr> title = Some (of_ascii ''Sample Blog Post''),
                  description = Some (of_ascii ''This is sample content for demonstration purposes.''),
                  url = of_ascii ''not a url'' \<rparr> \<rparr> \<and>
   sint (url_hash (of_ascii ''not a url'')) = - 195080797 \<and>
   generateSampleContent (of_ascii ''ftp://x'') = samples ! 2 \<and>
   sint (url_hash (of_ascii ''ftp://x'')) = - 537714560 \<and>
   generateSampleContent (of_ascii ''ftp://b'') = samples ! 0 \<and>
   sint (url_hash (of_ascii ''ftp://b'')) = - 537714582"
proof -
  let ?u = "of_ascii ''not a url''"
  have invalid: "\<not> isValidUrl offline_env ?u"
    by (simp add: isValidUrl_def offline_env_def demo_env_def demo_protocol_def of_ascii_def)
  then have run: "scrapeBlogText offline_env ?u no_options =
      (Resolved \<lparr> success = False, content = None,
                  error = Some (of_ascii ''Invalid URL provided''), metadata = None \<rparr>, [])"
    by (simp add: scrapeBlogText_def)
  have hash1: "url_hash ?u = 4099886499"
    by (simp add: url_hash_def of_ascii_def)
  have hash2: "url_hash (of_ascii ''ftp://x'') = 3757252736"
    by (simp add: url_hash_def of_ascii_def)
  have hash0: "url_hash (of_ascii ''ftp://b'') = 3757252714"
    by (simp add: url_hash_def of_ascii_def)
  note choice = fallback_never_fails [THEN conjunct2, THEN conjunct1]
  have sample1: "generateSampleContent ?u = samples ! 1"
    using choice [of ?u] by (simp add: hash1)
  have sample2: "generateSampleContent (of_ascii ''ftp://x'') = samples ! 2"
    using choice [of "of_ascii ''ftp://x''"] by (simp add: hash2)
  have sample0: "generateSampleContent (of_ascii ''ftp://b'') = samples ! 0"
    using choice [of "of_ascii ''ftp://b''"] by (simp add: hash0)
  have first: "fst (scrapeWithFallback offline_env ?u) =
     Resolved \<lparr> success = True, content = Some (samples ! 1), error = None,
                metadata = Some \<lparr> title = Some (of_ascii ''Sample Blog Post''),
                  description = Some (of_ascii ''This is sample content for demonstration purposes.''),
                  url = ?u \<rparr> \<rparr>"
    using fallback_never_fails [of offline_env ?u, THEN conjunct1] run sample1 by auto
  show ?thesis
    using first sample2 sample0 by (simp add: hash1 hash2 hash0)
qed

end
